theory Spec2Isabelle
  imports Main "HOL-Library.AList"
begin

section \<open>The document: elements, paths and selectors\<close>

text \<open>
  The side navigation of \<^verbatim>\<open>sidenav.ts\<close> reads and writes a browser document. The
  document is a finite tree of elements. An element reference of the program (an
  \<^verbatim>\<open>HTMLAnchorElement\<close>, an \<^verbatim>\<open>HTMLElement\<close>) is the path of that element: the
  child indices from the root element down to it. The program never inserts or removes
  a node, so a path denotes the same element throughout.
\<close>

type_synonym path = "nat list"

text \<open>
  What the program reads or writes of one element: its tag (\<^verbatim>\<open>a\<close> in the selector
  \<^verbatim>\<open>a.nav-link\<close>), its class list, its content attributes, the value of the \<^verbatim>\<open>href\<close>
  property (the resolved URL the browser computes) and \<^verbatim>\<open>offsetParent\<close>, which the
  layout engine sets to null for an element that is not rendered.
\<close>

record element =
  localName :: string
  classList :: "string list"
  attributes :: "(string \<times> string) list"
  href :: string
  offsetParent :: "path option"

datatype dom = Elem element "dom list"

primrec subtree :: "path \<Rightarrow> dom \<Rightarrow> dom option" where
  "subtree [] t = Some t"
| "subtree (i # p) t =
     (case t of Elem e cs \<Rightarrow> if i < length cs then subtree p (cs ! i) else None)"

definition element_at :: "path \<Rightarrow> dom \<Rightarrow> element option" where
  "element_at p t = (case subtree p t of None \<Rightarrow> None | Some (Elem e cs) \<Rightarrow> Some e)"

text \<open>A write to the element at a path; the rest of the tree is kept.\<close>

primrec update_at :: "path \<Rightarrow> (element \<Rightarrow> element) \<Rightarrow> dom \<Rightarrow> dom" where
  "update_at [] f t = (case t of Elem e cs \<Rightarrow> Elem (f e) cs)"
| "update_at (i # p) f t =
     (case t of Elem e cs \<Rightarrow>
        if i < length cs then Elem e (cs[i := update_at p f (cs ! i)]) else t)"

subsection \<open>Element operations\<close>

definition hasAttribute :: "string \<Rightarrow> element \<Rightarrow> bool" where
  "hasAttribute name e = (map_of (attributes e) name \<noteq> None)"

definition getAttribute :: "string \<Rightarrow> element \<Rightarrow> string option" where
  "getAttribute name e = map_of (attributes e) name"

definition setAttribute :: "string \<Rightarrow> string \<Rightarrow> element \<Rightarrow> element" where
  "setAttribute name v e = e\<lparr>attributes := AList.update name v (attributes e)\<rparr>"

definition removeAttribute :: "string \<Rightarrow> element \<Rightarrow> element" where
  "removeAttribute name e = e\<lparr>attributes := AList.delete name (attributes e)\<rparr>"

definition classList_contains :: "string \<Rightarrow> element \<Rightarrow> bool" where
  "classList_contains c e = (c \<in> set (classList e))"

text \<open>\<^verbatim>\<open>classList.add\<close> appends a token that is not there yet; the list is an ordered set.\<close>

definition classList_add :: "string \<Rightarrow> element \<Rightarrow> element" where
  "classList_add c e = (if c \<in> set (classList e) then e else e\<lparr>classList := classList e @ [c]\<rparr>)"

definition classList_remove :: "string \<Rightarrow> element \<Rightarrow> element" where
  "classList_remove c e = e\<lparr>classList := removeAll c (classList e)\<rparr>"

subsection \<open>Ancestors\<close>

primrec proper_prefixes :: "path \<Rightarrow> path list" where
  "proper_prefixes [] = []"
| "proper_prefixes (i # p) = [] # map ((#) i) (proper_prefixes p)"

text \<open>The ancestors of an element, the parent first and the root element last.\<close>

definition ancestors :: "path \<Rightarrow> path list" where
  "ancestors p = rev (proper_prefixes p)"

text \<open>\<^verbatim>\<open>parentElement\<close> is null at the root element.\<close>

definition parentElement :: "path \<Rightarrow> path option" where
  "parentElement p = (if p = [] then None else Some (butlast p))"

subsection \<open>Selectors\<close>

text \<open>
  The selectors of the program are compound selectors (an optional tag, classes,
  attributes that must be present) joined by the descendant combinator, and once
  \<^verbatim>\<open>:scope > .nav-link\<close>. A complex selector is the list of its compounds, the
  outermost ancestor first.
\<close>

record compound =
  sel_tag :: "string option"
  sel_classes :: "string list"
  sel_attrs :: "string list"

definition cls :: "string \<Rightarrow> compound" where
  "cls c = \<lparr>sel_tag = None, sel_classes = [c], sel_attrs = []\<rparr>"

definition matches_compound :: "compound \<Rightarrow> element \<Rightarrow> bool" where
  "matches_compound c e =
     ((case sel_tag c of None \<Rightarrow> True | Some t \<Rightarrow> localName e = t) \<and>
      list_all (\<lambda>k. classList_contains k e) (sel_classes c) \<and>
      list_all (\<lambda>a. hasAttribute a e) (sel_attrs c))"

definition has_compound :: "dom \<Rightarrow> compound \<Rightarrow> path \<Rightarrow> bool" where
  "has_compound d c p = (case element_at p d of None \<Rightarrow> False | Some e \<Rightarrow> matches_compound c e)"

text \<open>
  The compounds left of the subject, innermost first, against the ancestors, nearest
  first: each compound needs an ancestor further out than the one before.
\<close>

fun match_ancestors :: "dom \<Rightarrow> compound list \<Rightarrow> path list \<Rightarrow> bool" where
  "match_ancestors d [] qs = True"
| "match_ancestors d (c # cs) [] = False"
| "match_ancestors d (c # cs) (q # qs) =
     ((has_compound d c q \<and> match_ancestors d cs qs) \<or> match_ancestors d (c # cs) qs)"

definition matches :: "dom \<Rightarrow> compound list \<Rightarrow> path \<Rightarrow> bool" where
  "matches d sel p =
     (case rev sel of
        [] \<Rightarrow> False
      | c # cs \<Rightarrow> has_compound d c p \<and> match_ancestors d cs (ancestors p))"

text \<open>All elements of the document in document order (preorder).\<close>

fun paths :: "dom \<Rightarrow> path list" and paths_from :: "nat \<Rightarrow> dom list \<Rightarrow> path list" where
  "paths (Elem e cs) = [] # paths_from 0 cs"
| "paths_from i [] = []"
| "paths_from i (c # cs) = map ((#) i) (paths c) @ paths_from (Suc i) cs"

definition is_descendant :: "path \<Rightarrow> path \<Rightarrow> bool" where
  "is_descendant scope p = (length scope < length p \<and> take (length scope) p = scope)"

text \<open>
  \<^verbatim>\<open>document.querySelectorAll\<close> and \<^verbatim>\<open>element.querySelectorAll\<close>: a static list in
  document order. The selector is matched against the whole document; the scope only
  restricts the result to its descendants.
\<close>

definition document_querySelectorAll :: "dom \<Rightarrow> compound list \<Rightarrow> path list" where
  "document_querySelectorAll d sel = filter (matches d sel) (paths d)"

definition querySelectorAll :: "dom \<Rightarrow> path \<Rightarrow> compound list \<Rightarrow> path list" where
  "querySelectorAll d scope sel =
     filter (\<lambda>p. is_descendant scope p \<and> matches d sel p) (paths d)"

definition querySelector :: "dom \<Rightarrow> path \<Rightarrow> compound list \<Rightarrow> path option" where
  "querySelector d scope sel =
     (case querySelectorAll d scope sel of [] \<Rightarrow> None | p # ps \<Rightarrow> Some p)"

text \<open>\<^verbatim>\<open>scope.querySelector(':scope > c')\<close>: the first child of the scope that matches.\<close>

definition children :: "dom \<Rightarrow> path \<Rightarrow> path list" where
  "children d scope =
     (case subtree scope d of
        None \<Rightarrow> []
      | Some (Elem e cs) \<Rightarrow> map (\<lambda>i. scope @ [i]) [0..<length cs])"

definition querySelector_child :: "dom \<Rightarrow> path \<Rightarrow> compound \<Rightarrow> path option" where
  "querySelector_child d scope c = find (has_compound d c) (children d scope)"

text \<open>\<^verbatim>\<open>element.closest(selector)\<close>: the element itself or its nearest ancestor that matches.\<close>

definition closest :: "dom \<Rightarrow> compound \<Rightarrow> path \<Rightarrow> path option" where
  "closest d c p = find (has_compound d c) (p # ancestors p)"

section \<open>The SideNav instance\<close>

datatype BodyAttr = Show | Hide | Hidden | Pinned

fun attr_name :: "BodyAttr \<Rightarrow> string" where
  "attr_name Show = ''show''"
| "attr_name Hide = ''hide''"
| "attr_name Hidden = ''hidden''"
| "attr_name Pinned = ''pinned''"

text \<open>The template literal \<^verbatim>\<open>`data-sidenav-${attr}`\<close>.\<close>

definition body_attribute :: "BodyAttr \<Rightarrow> string" where
  "body_attribute attr = ''data-sidenav-'' @ attr_name attr"

text \<open>
  Modelled from the spec: the class \<^verbatim>\<open>StateManager\<close> of \<^verbatim>\<open>./state\<close> is not among the
  sources. The spec describes it as a persisted key-value store with get and set,
  holding the single preference \<^verbatim>\<open>pinned\<close> of \<^verbatim>\<open>NavState\<close>: a read returns what the
  last write stored.
\<close>

record NavState =
  pinned :: bool

definition state_get_pinned :: "NavState \<Rightarrow> bool" where
  "state_get_pinned st = pinned st"

definition state_set_pinned :: "bool \<Rightarrow> NavState \<Rightarrow> NavState" where
  "state_set_pinned v st = st\<lparr>pinned := v\<rparr>"

text \<open>
  The collapse controller is the class \<^verbatim>\<open>Collapse\<close> of the bootstrap library, an
  external collaborator. An instance is kept as the panel element it was built on and
  the calls it has received, oldest first; what the library does on a call (animation,
  classes of the panel) is outside this development. The constructor is called with
  \<^verbatim>\<open>toggle: false\<close>, so it makes no call of its own.
\<close>

datatype collapse_call = CollapseShow | CollapseHide

record collapse =
  panel :: path
  calls :: "collapse_call list"

definition Collapse_new :: "path \<Rightarrow> collapse" where
  "Collapse_new el = \<lparr>panel = el, calls = []\<rparr>"

definition collapse_show :: "collapse \<Rightarrow> collapse" where
  "collapse_show c = c\<lparr>calls := calls c @ [CollapseShow]\<rparr>"

definition collapse_hide :: "collapse \<Rightarrow> collapse" where
  "collapse_hide c = c\<lparr>calls := calls c @ [CollapseHide]\<rparr>"

text \<open>
  The instance and what it can reach. \<^verbatim>\<open>document.body\<close> is kept as an element of its
  own: the program touches only its \<^verbatim>\<open>data-sidenav-*\<close> attributes, which no selector
  and no other write of the program mentions. \<^verbatim>\<open>sections\<close> is the \<^verbatim>\<open>Map\<close> in insertion
  order; \<^verbatim>\<open>get\<close> is \<^const>\<open>map_of\<close> and \<^verbatim>\<open>set\<close> is \<^const>\<open>AList.update\<close>.
\<close>

record sidenav =
  document :: dom
  body :: element
  location_href :: string
  base :: path
  state :: NavState
  currentMobileState :: "bool option"
  activeLink :: "path option"
  sections :: "(path \<times> collapse) list"

text \<open>
  Exceptions are values. \<^verbatim>\<open>TypeError\<close>: a method call on null. \<^verbatim>\<open>SyntaxError\<close>:
  \<^verbatim>\<open>new RegExp\<close> on a string that is not a pattern. A method that can throw returns
  the exception, if any, and the instance as it is when the method returns or throws.
\<close>

datatype error = TypeError | SyntaxError

type_synonym completion = "error option \<times> sidenav"

text \<open>
  The regular expression engine of the host is a parameter: \<open>re pattern subject\<close> is
  \<open>None\<close> when \<^verbatim>\<open>new RegExp(pattern, 'gi')\<close> throws, and otherwise tells whether
  \<^verbatim>\<open>subject.match(regexp)\<close> is not null.
\<close>

type_synonym regexp_engine = "string \<Rightarrow> string \<Rightarrow> bool option"

subsection \<open>Body attributes\<close>

definition bodyHas :: "BodyAttr \<Rightarrow> sidenav \<Rightarrow> bool" where
  "bodyHas attr s = hasAttribute (body_attribute attr) (body s)"

fun bodyRemove :: "BodyAttr list \<Rightarrow> sidenav \<Rightarrow> sidenav" where
  "bodyRemove [] s = s"
| "bodyRemove (attr # attrs) s =
     bodyRemove attrs (s\<lparr>body := removeAttribute (body_attribute attr) (body s)\<rparr>)"

fun bodyAdd :: "BodyAttr list \<Rightarrow> sidenav \<Rightarrow> sidenav" where
  "bodyAdd [] s = s"
| "bodyAdd (attr # attrs) s =
     bodyAdd attrs (s\<lparr>body := setAttribute (body_attribute attr) [] (body s)\<rparr>)"

subsection \<open>Hiding\<close>

text \<open>
  The loop of \<^verbatim>\<open>hide\<close> over the entries of \<^verbatim>\<open>sections\<close>: the three statements of its
  body, entry by entry. It returns the entries with their instances after the call and
  the document after the writes.
\<close>

fun hide_sections :: "(path \<times> collapse) list \<Rightarrow> dom \<Rightarrow> (path \<times> collapse) list \<times> dom" where
  "hide_sections [] d = ([], d)"
| "hide_sections ((link, c) # rest) d =
     (let d1 = update_at link (classList_add ''collapsed'') d;
          d2 = update_at link (setAttribute ''aria-expanded'' ''false'') d1;
          c' = collapse_hide c;
          (rest', d') = hide_sections rest d2
      in ((link, c') # rest', d'))"

definition hide :: "sidenav \<Rightarrow> sidenav" where
  "hide s =
     (let s1 = bodyAdd [Hide] s;
          s2 = bodyRemove [Pinned, Show] s1;
          (secs, d) = hide_sections (sections s2) (document s2);
          s3 = s2\<lparr>document := d, sections := secs\<rparr>;
          s4 = bodyRemove [Hide] s3
      in bodyAdd [Hidden] s4)"

subsection \<open>Activating links\<close>

datatype action = Expand | Collapse

text \<open>
  The loop of \<^verbatim>\<open>activateLink\<close>: from \<open>navItem\<close>, go to the nearest \<^verbatim>\<open>.nav-item\<close> at or
  above its parent, until there is none. \<^verbatim>\<open>navItem.parentElement.closest\<close> throws a
  \<^verbatim>\<open>TypeError\<close> when \<open>navItem\<close> is the root element, whose \<^verbatim>\<open>parentElement\<close> is null.
\<close>

function walk :: "dom \<Rightarrow> path \<Rightarrow> error + path" where
  "walk d navItem =
     (case parentElement navItem of
        None \<Rightarrow> Inl TypeError
      | Some parent \<Rightarrow>
          (case closest d (cls ''nav-item'') parent of
             None \<Rightarrow> Inr navItem
           | Some nextItem \<Rightarrow> walk d nextItem))"
  by pat_completeness auto
termination
proof (relation "measure (\<lambda>(d, navItem). length navItem)")
  show "wf (measure (\<lambda>(d, navItem). length navItem))" by simp
next
  fix d :: dom and navItem parent nextItem :: path
  assume p: "parentElement navItem = Some parent"
    and c: "closest d (cls ''nav-item'') parent = Some nextItem"
  have shorter: "length q < length r" if "q \<in> set (proper_prefixes r)" for q r :: path
    using that by (induction r arbitrary: q) auto
  have found: "x \<in> set xs" if "find P xs = Some x" for P and x :: path and xs
    using that by (induction xs) (auto split: if_splits)
  from c have "nextItem \<in> set (parent # ancestors parent)"
    unfolding closest_def by (rule found)
  then have "length nextItem \<le> length parent"
    using shorter [of nextItem parent] by (auto simp: ancestors_def)
  moreover from p have "length parent < length navItem"
    by (auto simp: parentElement_def split: if_splits)
  ultimately
  show "((d, nextItem), (d, navItem)) \<in> measure (\<lambda>(d, navItem). length navItem)"
    by simp
qed

declare walk.simps [simp del]

text \<open>
  Modelled from the spec: \<^verbatim>\<open>isElement\<close> of \<^verbatim>\<open>./util\<close> is not among the sources. The spec
  has the activation skipped when no group link is found, so it is the test that the
  reference is an element and not null.
\<close>

definition isElement :: "path option \<Rightarrow> bool" where
  "isElement obj = (obj \<noteq> None)"

text \<open>\<^verbatim>\<open>this.sections.get(key)\<close>, for a key that may be null; null is no key of the map.\<close>

definition sections_get :: "(path \<times> collapse) list \<Rightarrow> path option \<Rightarrow> collapse option" where
  "sections_get secs key = (case key of None \<Rightarrow> None | Some k \<Rightarrow> map_of secs k)"

definition activateLink :: "path \<Rightarrow> action \<Rightarrow> sidenav \<Rightarrow> completion" where
  "activateLink link act s =
     (case walk (document s) link of
        Inl e \<Rightarrow> (Some e, s)
      | Inr navItem \<Rightarrow>
          (let groupLink = querySelector_child (document s) navItem (cls ''nav-link'') in
           if isElement groupLink then
             (case sections_get (sections s) groupLink of
                None \<Rightarrow> (None, s)
              | Some c \<Rightarrow>
                  (let g = the groupLink;
                       d1 = update_at g (classList_add ''active'') (document s)
                   in case act of
                        Expand \<Rightarrow>
                          (let d2 = update_at g (setAttribute ''aria-expanded'' ''true'') d1;
                               secs = AList.map_entry g collapse_show (sections s);
                               d3 = update_at link (classList_add ''active'') d2;
                               d4 = update_at g (classList_remove ''collapsed'') d3
                           in (None, s\<lparr>document := d4, sections := secs\<rparr>))
                      | Collapse \<Rightarrow>
                          (let d2 = update_at g (setAttribute ''aria-expanded'' ''false'') d1;
                               secs = AList.map_entry g collapse_hide (sections s);
                               d3 = update_at link (classList_remove ''active'') d2;
                               d4 = update_at g (classList_add ''collapsed'') d3
                           in (None, s\<lparr>document := d4, sections := secs\<rparr>))))
           else (None, s)))"

subsection \<open>Active links\<close>

definition nav_link_selector :: "compound list" where
  "nav_link_selector =
     [cls ''navbar-nav'', cls ''nav'', cls ''nav-item'',
      \<lparr>sel_tag = Some ''a'', sel_classes = [''nav-link''], sel_attrs = []\<rparr>]"

text \<open>
  \<^verbatim>\<open>getActiveLinks\<close> is a generator. Its state is the part of the static node list of
  \<^verbatim>\<open>querySelectorAll\<close> that it has not visited yet; the list is computed when the
  \<^verbatim>\<open>for\<close> loop of the caller starts.
\<close>

definition getActiveLinks :: "sidenav \<Rightarrow> path list" where
  "getActiveLinks s = querySelectorAll (document s) (base s) nav_link_selector"

text \<open>\<^verbatim>\<open>link.href\<close>, for a link of the node list (an element of the document).\<close>

definition link_href :: "sidenav \<Rightarrow> path \<Rightarrow> string" where
  "link_href s link = (case element_at link (document s) of None \<Rightarrow> [] | Some e \<Rightarrow> href e)"

text \<open>
  One \<^verbatim>\<open>next()\<close> of the generator: run its loop up to the next \<^verbatim>\<open>yield\<close>. The result
  is the exception of \<^verbatim>\<open>new RegExp\<close>, or the end of the sequence, or the link yielded
  with the generator's new state.
\<close>

fun getActiveLinks_next ::
  "regexp_engine \<Rightarrow> sidenav \<Rightarrow> path list \<Rightarrow> error + (path \<times> path list) option" where
  "getActiveLinks_next re s [] = Inr None"
| "getActiveLinks_next re s (link # rest) =
     (case re (link_href s link) (location_href s) of
        None \<Rightarrow> Inl SyntaxError
      | Some True \<Rightarrow> Inr (Some (link, rest))
      | Some False \<Rightarrow> getActiveLinks_next re s rest)"

text \<open>
  \<^verbatim>\<open>for (const link of this.getActiveLinks()) block(link)\<close>: the block runs between
  two \<^verbatim>\<open>next()\<close> calls, on the instance as the earlier iterations left it. An
  exception of the generator or of the block ends the loop.
\<close>

function for_getActiveLinks ::
  "regexp_engine \<Rightarrow> (path \<Rightarrow> sidenav \<Rightarrow> completion) \<Rightarrow> path list \<Rightarrow> sidenav \<Rightarrow> completion" where
  "for_getActiveLinks re block g s =
     (case getActiveLinks_next re s g of
        Inl e \<Rightarrow> (Some e, s)
      | Inr None \<Rightarrow> (None, s)
      | Inr (Some (link, g')) \<Rightarrow>
          (case block link s of
             (Some e, s') \<Rightarrow> (Some e, s')
           | (None, s') \<Rightarrow> for_getActiveLinks re block g' s'))"
  by pat_completeness auto
termination
proof -
  have shorter: "length g' < length g"
    if "getActiveLinks_next re s g = Inr (Some (link, g'))" for re s g link g'
    using that by (induction g) (auto split: option.splits bool.splits)
  show ?thesis
    by (relation "measure (\<lambda>(re, block, g, s). length g)") (auto dest: shorter)
qed

declare for_getActiveLinks.simps [simp del]

text \<open>
  The sequence a consumer that changes nothing receives (\<^verbatim>\<open>[...this.getActiveLinks()]\<close>):
  the links yielded, and the exception that ended the sequence, if any.
\<close>

function getActiveLinks_yields ::
  "regexp_engine \<Rightarrow> sidenav \<Rightarrow> path list \<Rightarrow> path list \<times> error option" where
  "getActiveLinks_yields re s g =
     (case getActiveLinks_next re s g of
        Inl e \<Rightarrow> ([], Some e)
      | Inr None \<Rightarrow> ([], None)
      | Inr (Some (link, g')) \<Rightarrow>
          (case getActiveLinks_yields re s g' of (links, e) \<Rightarrow> (link # links, e)))"
  by pat_completeness auto
termination
proof -
  have shorter: "length g' < length g"
    if "getActiveLinks_next re s g = Inr (Some (link, g'))" for re s g link g'
    using that by (induction g) (auto split: option.splits bool.splits)
  show ?thesis
    by (relation "measure (\<lambda>(re, s, g). length g)") (auto dest: shorter)
qed

declare getActiveLinks_yields.simps [simp del]

subsection \<open>Showing, pinning, unpinning\<close>

definition show_nav :: "regexp_engine \<Rightarrow> sidenav \<Rightarrow> completion" where
  "show_nav re s =
     (let s1 = bodyAdd [Show] s;
          s2 = bodyRemove [Hidden, Hide] s1
      in for_getActiveLinks re (\<lambda>link. activateLink link Expand) (getActiveLinks s2) s2)"

definition pin :: "regexp_engine \<Rightarrow> sidenav \<Rightarrow> completion" where
  "pin re s =
     (let s1 = s\<lparr>state := state_set_pinned True (state s)\<rparr>;
          s2 = bodyAdd [Pinned] s1
      in show_nav re s2)"

definition unpin :: "sidenav \<Rightarrow> sidenav" where
  "unpin s = hide (s\<lparr>state := state_set_pinned False (state s)\<rparr>)"

subsection \<open>Section links\<close>

record event =
  target :: path
  defaultPrevented :: bool

definition preventDefault :: "event \<Rightarrow> event" where
  "preventDefault ev = ev\<lparr>defaultPrevented := True\<rparr>"

text \<open>
  The loop of \<^verbatim>\<open>closeInactiveSections\<close>, as \<^const>\<open>hide_sections\<close> but skipping the
  entry of the active link. \<^verbatim>\<open>link !== this.activeLink\<close> holds for every link when
  \<^verbatim>\<open>activeLink\<close> is null.
\<close>

fun close_sections ::
  "path option \<Rightarrow> (path \<times> collapse) list \<Rightarrow> dom \<Rightarrow> (path \<times> collapse) list \<times> dom" where
  "close_sections active [] d = ([], d)"
| "close_sections active ((link, c) # rest) d =
     (if Some link \<noteq> active then
        (let d1 = update_at link (classList_add ''collapsed'') d;
             d2 = update_at link (setAttribute ''aria-expanded'' ''false'') d1;
             c' = collapse_hide c;
             (rest', d') = close_sections active rest d2
         in ((link, c') # rest', d'))
      else
        (let (rest', d') = close_sections active rest d
         in ((link, c) # rest', d')))"

definition closeInactiveSections :: "sidenav \<Rightarrow> sidenav" where
  "closeInactiveSections s =
     (let (secs, d) = close_sections (activeLink s) (sections s) (document s)
      in s\<lparr>document := d, sections := secs\<rparr>)"

definition handleSectionClick :: "event \<Rightarrow> sidenav \<Rightarrow> event \<times> sidenav" where
  "handleSectionClick ev s =
     (let ev' = preventDefault ev;
          el = target ev';
          s1 = s\<lparr>activeLink := Some el\<rparr>
      in (ev', closeInactiveSections s1))"

text \<open>
  Modelled from the spec: \<^verbatim>\<open>getElements\<close> of \<^verbatim>\<open>./util\<close> is not among the sources. The
  spec describes it as a selection helper that enumerates the elements of the document
  a selector marks.
\<close>

definition getElements :: "dom \<Rightarrow> compound list \<Rightarrow> path list" where
  "getElements d sel = document_querySelectorAll d sel"

definition section_selector :: "compound list" where
  "section_selector =
     [cls ''navbar-nav'', cls ''nav-item'',
      \<lparr>sel_tag = None, sel_classes = [''nav-link''], sel_attrs = [''data-bs-toggle'']\<rparr>]"

fun register_sections :: "path list \<Rightarrow> sidenav \<Rightarrow> sidenav" where
  "register_sections [] s = s"
| "register_sections (section # rest) s =
     (case parentElement section of
        None \<Rightarrow> register_sections rest s
      | Some parent \<Rightarrow>
          (case querySelector (document s) parent [cls ''collapse''] of
             None \<Rightarrow> register_sections rest s
           | Some el \<Rightarrow>
               register_sections rest
                 (s\<lparr>sections := AList.update section (Collapse_new el) (sections s)\<rparr>)))"

definition initSectionLinks :: "sidenav \<Rightarrow> sidenav" where
  "initSectionLinks s = register_sections (getElements (document s) section_selector) s"

definition initActiveLinks :: "regexp_engine \<Rightarrow> sidenav \<Rightarrow> completion" where
  "initActiveLinks re s =
     for_getActiveLinks re
       (\<lambda>link s'. activateLink link (if bodyHas Show s' then Expand else Collapse) s')
       (getActiveLinks s) s"

subsection \<open>Event handlers\<close>

definition onEnter :: "regexp_engine \<Rightarrow> sidenav \<Rightarrow> completion" where
  "onEnter re s =
     (if \<not> (currentMobileState s = Some True \<or> bodyHas Pinned s) then show_nav re s
      else (None, s))"

definition onLeave :: "sidenav \<Rightarrow> sidenav" where
  "onLeave s =
     (if \<not> (currentMobileState s = Some True \<or> bodyHas Pinned s) then hide s else s)"

definition link_offsetParent :: "sidenav \<Rightarrow> path \<Rightarrow> path option" where
  "link_offsetParent s el =
     (case element_at el (document s) of None \<Rightarrow> None | Some e \<Rightarrow> offsetParent e)"

text \<open>
  The first loop of \<^verbatim>\<open>onResize\<close>. \<open>Some\<close> is the \<^verbatim>\<open>return\<close> inside the loop, with the
  instance at that point; \<open>None\<close> is the loop running to its end.
\<close>

fun resize_togglers :: "path list \<Rightarrow> sidenav \<Rightarrow> sidenav option" where
  "resize_togglers [] s = None"
| "resize_togglers (toggler # rest) s =
     (if link_offsetParent s toggler \<noteq> None then
        (if currentMobileState s = None \<or> currentMobileState s = Some False then
           Some ((hide s)\<lparr>currentMobileState := Some True\<rparr>)
         else Some s)
      else resize_togglers rest s)"

definition onResize :: "regexp_engine \<Rightarrow> sidenav \<Rightarrow> completion" where
  "onResize re s =
     (case resize_togglers (getElements (document s) [cls ''sidenav-toggle-mobile'']) s of
        Some s' \<Rightarrow> (None, s')
      | None \<Rightarrow>
          if currentMobileState s = None \<or> currentMobileState s = Some True then
            (case (if state_get_pinned (state s) then pin re s else (None, unpin s)) of
               (Some e, s') \<Rightarrow> (Some e, s')
             | (None, s') \<Rightarrow> (None, s'\<lparr>currentMobileState := Some False\<rparr>))
          else (None, s))"

definition onToggle :: "regexp_engine \<Rightarrow> event \<Rightarrow> sidenav \<Rightarrow> event \<times> completion" where
  "onToggle re ev s =
     (preventDefault ev,
      if state_get_pinned (state s) then (None, unpin s) else pin re s)"

definition onMobileToggle :: "regexp_engine \<Rightarrow> event \<Rightarrow> sidenav \<Rightarrow> event \<times> completion" where
  "onMobileToggle re ev s =
     (preventDefault ev,
      if bodyHas Show s then (None, hide s) else show_nav re s)"

subsection \<open>Construction\<close>

text \<open>
  \<^verbatim>\<open>init\<close> registers the listeners and calls \<^verbatim>\<open>onResize\<close> once. A listener is not a
  value of the model: an event is a call of its handler.
\<close>

definition init :: "regexp_engine \<Rightarrow> sidenav \<Rightarrow> completion" where
  "init re s = onResize re s"

text \<open>
  The constructor, on a document, the body element, the location, what the store has
  persisted under its key (nothing on a first visit, then the default
  \<^verbatim>\<open>{ pinned: true }\<close> is used) and the container element.
\<close>

definition SideNav_new ::
  "regexp_engine \<Rightarrow> dom \<Rightarrow> element \<Rightarrow> string \<Rightarrow> NavState option \<Rightarrow> path \<Rightarrow> completion" where
  "SideNav_new re d b loc persisted container =
     (let s0 = \<lparr>document = d, body = b, location_href = loc, base = container,
                state = (case persisted of None \<Rightarrow> \<lparr>pinned = True\<rparr> | Some st \<Rightarrow> st),
                currentMobileState = None, activeLink = None, sections = []\<rparr>
      in case init re s0 of
           (Some e, s1) \<Rightarrow> (Some e, s1)
         | (None, s1) \<Rightarrow> initActiveLinks re (initSectionLinks s1))"

section \<open>Vocabulary of the properties\<close>

text \<open>An element reference that denotes an element of the document.\<close>

definition in_document :: "dom \<Rightarrow> path \<Rightarrow> bool" where
  "in_document d p = (element_at p d \<noteq> None)"


text \<open>
  A section link marked collapsed: it carries the class \<^verbatim>\<open>collapsed\<close> and its attribute
  \<^verbatim>\<open>aria-expanded\<close> is \<^verbatim>\<open>false\<close>.
\<close>

definition marked_collapsed :: "dom \<Rightarrow> path \<Rightarrow> bool" where
  "marked_collapsed d link =
     (case element_at link d of
        None \<Rightarrow> False
      | Some e \<Rightarrow> classList_contains ''collapsed'' e \<and> getAttribute ''aria-expanded'' e = Some ''false'')"


text \<open>The most recent call a collapse controller has received.\<close>

definition last_call :: "collapse \<Rightarrow> collapse_call option" where
  "last_call c = (case rev (calls c) of [] \<Rightarrow> None | x # xs \<Rightarrow> Some x)"

text \<open>Every registered section link is an element of the document.\<close>

definition links_in_document :: "sidenav \<Rightarrow> bool" where
  "links_in_document s = list_all (\<lambda>(link, c). in_document (document s) link) (sections s)"

text \<open>
  A sequence of calls of the four visibility operations. A call that throws leaves the
  instance as it is at the throw, and the next call starts from there.
\<close>

datatype visibility_call = CallShow | CallHide | CallPin | CallUnpin

fun perform :: "regexp_engine \<Rightarrow> visibility_call \<Rightarrow> sidenav \<Rightarrow> completion" where
  "perform re CallShow s = show_nav re s"
| "perform re CallHide s = (None, hide s)"
| "perform re CallPin s = pin re s"
| "perform re CallUnpin s = (None, unpin s)"

fun run_calls :: "regexp_engine \<Rightarrow> visibility_call list \<Rightarrow> sidenav \<Rightarrow> sidenav" where
  "run_calls re [] s = s"
| "run_calls re (c # cs) s = run_calls re cs (snd (perform re c s))"

text \<open>The invariant ``pinned implies shown'' of the body flags.\<close>

definition pinned_implies_shown :: "sidenav \<Rightarrow> bool" where
  "pinned_implies_shown s = (bodyHas Pinned s \<longrightarrow> bodyHas Show s \<and> \<not> bodyHas Hidden s)"


text \<open>Whether an element of the document carries a class; the value of one of its attributes.\<close>

definition has_class :: "dom \<Rightarrow> path \<Rightarrow> string \<Rightarrow> bool" where
  "has_class d p c = (case element_at p d of None \<Rightarrow> False | Some e \<Rightarrow> classList_contains c e)"

definition attribute_of :: "dom \<Rightarrow> path \<Rightarrow> string \<Rightarrow> string option" where
  "attribute_of d p name = (case element_at p d of None \<Rightarrow> None | Some e \<Rightarrow> getAttribute name e)"

text \<open>
  A section is collapsed: its link is marked collapsed and the last call on its collapse
  controller is \<^verbatim>\<open>hide()\<close>.
\<close>

definition section_collapsed :: "sidenav \<Rightarrow> path \<Rightarrow> bool" where
  "section_collapsed s link =
     (marked_collapsed (document s) link \<and>
      (case map_of (sections s) link of
         None \<Rightarrow> False
       | Some c \<Rightarrow> last_call c = Some CollapseHide))"

text \<open>A click event on an element, as the browser delivers it.\<close>

definition click :: "path \<Rightarrow> event" where
  "click link = \<lparr>target = link, defaultPrevented = False\<rparr>"

text \<open>Some mobile toggler is rendered: its \<^verbatim>\<open>offsetParent\<close> is not null.\<close>

definition some_toggler_rendered :: "sidenav \<Rightarrow> bool" where
  "some_toggler_rendered s =
     list_ex (\<lambda>toggler. link_offsetParent s toggler \<noteq> None)
       (getElements (document s) [cls ''sidenav-toggle-mobile''])"


text \<open>
  For a navigation link: \<^verbatim>\<open>new RegExp(link.href, 'gi')\<close> returns, and the current location
  matches the expression.
\<close>

definition href_compiles :: "regexp_engine \<Rightarrow> sidenav \<Rightarrow> path \<Rightarrow> bool" where
  "href_compiles re s link = (re (link_href s link) (location_href s) \<noteq> None)"

definition href_matches :: "regexp_engine \<Rightarrow> sidenav \<Rightarrow> path \<Rightarrow> bool" where
  "href_matches re s link = (re (link_href s link) (location_href s) = Some True)"


text \<open>
  Document order on element references: an ancestor comes before its descendants, and
  the subtree of an earlier sibling before that of a later one.
\<close>

fun precedes :: "path \<Rightarrow> path \<Rightarrow> bool" where
  "precedes [] [] = False"
| "precedes [] (j # q) = True"
| "precedes (i # p) [] = False"
| "precedes (i # p) (j # q) = (i < j \<or> (i = j \<and> precedes p q))"


text \<open>
  The writes of the program change the classes \<^verbatim>\<open>active\<close> and \<^verbatim>\<open>collapsed\<close> and the attribute
  \<^verbatim>\<open>aria-expanded\<close> only; no compound selector of the program mentions them.
\<close>

definition unseen_write :: "(element \<Rightarrow> element) \<Rightarrow> bool" where
  "unseen_write f =
     (\<forall>e. localName (f e) = localName e \<and> href (f e) = href e \<and>
          offsetParent (f e) = offsetParent e \<and>
          (\<forall>c. c \<noteq> ''active'' \<and> c \<noteq> ''collapsed'' \<longrightarrow>
               classList_contains c (f e) = classList_contains c e) \<and>
          (\<forall>n. n \<noteq> ''aria-expanded'' \<longrightarrow> hasAttribute n (f e) = hasAttribute n e))"

definition plain_compound :: "compound \<Rightarrow> bool" where
  "plain_compound c =
     (''active'' \<notin> set (sel_classes c) \<and> ''collapsed'' \<notin> set (sel_classes c) \<and>
      ''aria-expanded'' \<notin> set (sel_attrs c))"

text \<open>
  Two documents that the selectors of the program and the reads of \<^verbatim>\<open>href\<close> and
  \<^verbatim>\<open>offsetParent\<close> cannot tell apart, and two instances on such documents with the same
  container and location.
\<close>

definition same_view :: "dom \<Rightarrow> dom \<Rightarrow> bool" where
  "same_view d d' =
     (paths d' = paths d \<and>
      (\<forall>sel. list_all plain_compound sel \<longrightarrow> matches d' sel = matches d sel) \<and>
      (\<forall>p. map_option href (element_at p d') = map_option href (element_at p d)) \<and>
      (\<forall>p. map_option offsetParent (element_at p d') = map_option offsetParent (element_at p d)))"

definition same_links :: "sidenav \<Rightarrow> sidenav \<Rightarrow> bool" where
  "same_links s t =
     (same_view (document s) (document t) \<and> base t = base s \<and>
      location_href t = location_href s)"


section \<open>A sample page\<close>

text \<open>
  A page with the container, two sections of one link each and one mobile toggler, and
  the instance on it with both section links registered. The examples below are
  evaluated on it.
\<close>

definition el :: "string \<Rightarrow> string list \<Rightarrow> element" where
  "el tag classes = \<lparr>localName = tag, classList = classes, attributes = [], href = [], offsetParent = None\<rparr>"

definition anchor :: "string list \<Rightarrow> (string \<times> string) list \<Rightarrow> string \<Rightarrow> element" where
  "anchor classes attrs url =
     \<lparr>localName = ''a'', classList = classes, attributes = attrs, href = url, offsetParent = None\<rparr>"

definition demo_section :: "string \<Rightarrow> string \<Rightarrow> dom" where
  "demo_section menu url =
     Elem (el ''li'' [''nav-item''])
       [Elem (anchor [''nav-link''] [(''data-bs-toggle'', ''collapse'')] menu) [],
        Elem (el ''div'' [''collapse''])
          [Elem (el ''ul'' [''nav''])
             [Elem (el ''li'' [''nav-item''])
                [Elem (anchor [''nav-link''] [] url) []]]]]"

definition demo_document :: dom where
  "demo_document =
     Elem (el ''html'' [])
       [Elem (el ''div'' [''sidenav''])
          [Elem (el ''ul'' [''navbar-nav''])
             [demo_section ''http://localhost/a#m1'' ''http://localhost/a'',
              demo_section ''http://localhost/a#m2'' ''http://localhost/b'']],
        Elem (el ''button'' [''sidenav-toggle-mobile'']) []]"

definition demo_state :: sidenav where
  "demo_state =
     \<lparr>document = demo_document,
      body = el ''body'' [],
      location_href = ''http://localhost/a'',
      base = [0],
      state = \<lparr>pinned = True\<rparr>,
      currentMobileState = None,
      activeLink = None,
      sections = [([0, 0, 0, 0], Collapse_new [0, 0, 0, 1]), ([0, 0, 1, 0], Collapse_new [0, 0, 1, 1])]\<rparr>"

text \<open>The sample instance on a narrow window, where the mobile toggler is rendered.\<close>

definition demo_mobile :: sidenav where
  "demo_mobile =
     demo_state\<lparr>document := update_at [1] (\<lambda>e. e\<lparr>offsetParent := Some []\<rparr>) demo_document\<rparr>"

text \<open>
  The sample instance with the first link pointing to \<^verbatim>\<open>/a(\<close>. The browser resolves
  that to \<^verbatim>\<open>http://localhost/a(\<close>, which \<^verbatim>\<open>new RegExp\<close> rejects: the group is never
  closed.
\<close>

definition broken_state :: sidenav where
  "broken_state =
     demo_state\<lparr>document :=
       update_at [0, 0, 0, 1, 0, 0, 0] (\<lambda>e. e\<lparr>href := ''http://localhost/a(''\<rparr>) demo_document\<rparr>"


text \<open>
  The sample page with the class \<^verbatim>\<open>nav-item\<close> on its root element, and the instance on
  it before any section is registered.
\<close>

definition root_nav_item_state :: sidenav where
  "root_nav_item_state =
     demo_state\<lparr>document := update_at [] (classList_add ''nav-item'') demo_document,
                sections := []\<rparr>"


text \<open>
  A regular expression engine for the examples. On a pattern without a syntax character
  of ECMAScript (the backslash and \<^verbatim>\<open>^ $ . * + ? ( ) [ ] { } |\<close>) it does what
  \<^verbatim>\<open>new RegExp(pattern, 'gi')\<close>
  and \<^verbatim>\<open>match\<close> do on ASCII strings: the pattern matches where it occurs in the
  subject, letters compared without case. It rejects every other pattern. ECMAScript
  rejects only some of them, among them each pattern that opens a group with
  \<^verbatim>\<open>(\<close> and has no \<^verbatim>\<open>)\<close>, no \<^verbatim>\<open>[\<close> and no backslash (unterminated group); the examples use no
  other pattern with a syntax character.
\<close>

definition fold_case :: "char \<Rightarrow> char" where
  "fold_case c =
     (let n = of_char c :: nat in if 97 \<le> n \<and> n \<le> 122 then char_of (n - 32) else c)"

fun starts_with :: "string \<Rightarrow> string \<Rightarrow> bool" where
  "starts_with [] u = True"
| "starts_with (c # p) [] = False"
| "starts_with (c # p) (x # u) = (fold_case c = fold_case x \<and> starts_with p u)"

fun occurs_in :: "string \<Rightarrow> string \<Rightarrow> bool" where
  "occurs_in p [] = starts_with p []"
| "occurs_in p (x # u) = (starts_with p (x # u) \<or> occurs_in p u)"

definition syntax_characters :: string where
  "syntax_characters = ''^$.*+?()[]{}|'' @ [CHR 0x5C]"

definition literal_engine :: regexp_engine where
  "literal_engine pattern subject =
     (if list_all (\<lambda>c. c \<notin> set syntax_characters) pattern
      then Some (occurs_in pattern subject) else None)"


section \<open>Elements and body attributes\<close>

lemma proper_prefixes_shorter: "q \<in> set (proper_prefixes p) \<Longrightarrow> length q < length p"
  by (induction p arbitrary: q) auto

lemma find_in_set: "find P xs = Some x \<Longrightarrow> x \<in> set xs"
  by (induction xs) (auto split: if_splits)

lemma closest_not_longer: "closest d c p = Some q \<Longrightarrow> length q \<le> length p"
proof -
  assume "closest d c p = Some q"
  then have "q \<in> set (p # ancestors p)"
    unfolding closest_def by (rule find_in_set)
  then show ?thesis
    using proper_prefixes_shorter [of q p] by (auto simp: ancestors_def)
qed

lemma getActiveLinks_next_shorter:
  "getActiveLinks_next re s g = Inr (Some (link, g')) \<Longrightarrow> length g' < length g"
  by (induction g) (auto split: option.splits bool.splits)

lemma body_attribute_inject [simp]: "(body_attribute a = body_attribute b) = (a = b)"
  by (cases a; cases b) (simp_all add: body_attribute_def)

lemma hasAttribute_setAttribute [simp]:
  "hasAttribute n (setAttribute m v e) = (n = m \<or> hasAttribute n e)"
  by (auto simp: hasAttribute_def setAttribute_def update_conv')

lemma hasAttribute_removeAttribute [simp]:
  "hasAttribute n (removeAttribute m e) = (n \<noteq> m \<and> hasAttribute n e)"
  by (auto simp: hasAttribute_def removeAttribute_def delete_conv')

lemma bodyHas_bodyAdd [simp]: "bodyHas a (bodyAdd as s) = (a \<in> set as \<or> bodyHas a s)"
  by (induction as arbitrary: s) (auto simp: bodyHas_def)

lemma bodyHas_bodyRemove [simp]: "bodyHas a (bodyRemove as s) = (a \<notin> set as \<and> bodyHas a s)"
  by (induction as arbitrary: s) (auto simp: bodyHas_def)

lemma bodyAdd_fields [simp]:
  "document (bodyAdd as s) = document s"
  "sections (bodyAdd as s) = sections s"
  "state (bodyAdd as s) = state s"
  "location_href (bodyAdd as s) = location_href s"
  "base (bodyAdd as s) = base s"
  "currentMobileState (bodyAdd as s) = currentMobileState s"
  "activeLink (bodyAdd as s) = activeLink s"
  by (induction as arbitrary: s) auto

lemma bodyRemove_fields [simp]:
  "document (bodyRemove as s) = document s"
  "sections (bodyRemove as s) = sections s"
  "state (bodyRemove as s) = state s"
  "location_href (bodyRemove as s) = location_href s"
  "base (bodyRemove as s) = base s"
  "currentMobileState (bodyRemove as s) = currentMobileState s"
  "activeLink (bodyRemove as s) = activeLink s"
  by (induction as arbitrary: s) auto

lemma bodyHas_update_other [simp]:
  "bodyHas a (s\<lparr>document := d\<rparr>) = bodyHas a s"
  "bodyHas a (s\<lparr>sections := x\<rparr>) = bodyHas a s"
  "bodyHas a (s\<lparr>state := st\<rparr>) = bodyHas a s"
  "bodyHas a (s\<lparr>currentMobileState := m\<rparr>) = bodyHas a s"
  "bodyHas a (s\<lparr>activeLink := l\<rparr>) = bodyHas a s"
  by (simp_all add: bodyHas_def)

lemma hide_flags:
  "bodyHas a (hide s) = (a = Hidden)"
  by (cases a) (auto simp: hide_def Let_def split: prod.splits simp del: bodyAdd.simps bodyRemove.simps)

lemma hide_fields [simp]:
  "state (hide s) = state s"
  "location_href (hide s) = location_href s"
  "base (hide s) = base s"
  "currentMobileState (hide s) = currentMobileState s"
  "activeLink (hide s) = activeLink s"
  by (simp_all add: hide_def Let_def split: prod.splits del: bodyAdd.simps bodyRemove.simps)

lemma hide_sections_fst:
  "fst (hide_sections secs d) = map (\<lambda>(link, c). (link, collapse_hide c)) secs"
  by (induction secs arbitrary: d) (auto simp: Let_def case_prod_beta)

lemma hide_sections_eq: "sections (hide s) = map (\<lambda>(link, c). (link, collapse_hide c)) (sections s)"
  using hide_sections_fst [of "sections s" "document s"]
  by (simp add: hide_def Let_def case_prod_beta del: bodyAdd.simps bodyRemove.simps)

section \<open>Writes to the document\<close>

lemma element_at_Nil [simp]: "element_at [] (Elem e cs) = Some e"
  by (simp add: element_at_def)

lemma element_at_Cons [simp]:
  "element_at (i # p) (Elem e cs) = (if i < length cs then element_at p (cs ! i) else None)"
  by (simp add: element_at_def)

lemma element_at_update_at:
  "element_at p (update_at q f d) =
     (if p = q then map_option f (element_at p d) else element_at p d)"
proof (induction q arbitrary: p d)
  case Nil
  then show ?case by (cases d; cases p) auto
next
  case (Cons j q)
  show ?case
  proof (cases d)
    case (Elem e cs)
    then show ?thesis using Cons.IH
      by (cases p) (auto simp: nth_list_update)
  qed
qed

lemma in_document_update_at [simp]: "in_document (update_at q f d) p = in_document d p"
  by (auto simp: in_document_def element_at_update_at)

lemma classList_contains_add [simp]:
  "classList_contains c (classList_add k e) = (c = k \<or> classList_contains c e)"
  by (auto simp: classList_contains_def classList_add_def)

lemma classList_contains_remove [simp]:
  "classList_contains c (classList_remove k e) = (c \<noteq> k \<and> classList_contains c e)"
  by (auto simp: classList_contains_def classList_remove_def)

lemma classList_contains_setAttribute [simp]:
  "classList_contains c (setAttribute n v e) = classList_contains c e"
  by (simp add: classList_contains_def setAttribute_def)

lemma getAttribute_setAttribute [simp]:
  "getAttribute n (setAttribute m v e) = (if n = m then Some v else getAttribute n e)"
  by (simp add: getAttribute_def setAttribute_def update_conv')

lemma getAttribute_classList_add [simp]: "getAttribute n (classList_add c e) = getAttribute n e"
  by (simp add: getAttribute_def classList_add_def)

lemma getAttribute_classList_remove [simp]: "getAttribute n (classList_remove c e) = getAttribute n e"
  by (simp add: getAttribute_def classList_remove_def)

lemma marked_collapsed_step:
  "marked_collapsed
     (update_at q (setAttribute ''aria-expanded'' ''false'') (update_at q (classList_add ''collapsed'') d)) p
   = (if p = q then in_document d p else marked_collapsed d p)"
  by (auto simp: marked_collapsed_def in_document_def element_at_update_at split: option.splits)

lemma marked_collapsed_in_document: "marked_collapsed d p \<Longrightarrow> in_document d p"
  by (auto simp: marked_collapsed_def in_document_def split: option.splits)

lemma hide_sections_snd_Cons:
  "snd (hide_sections ((link, c) # rest) d) =
     snd (hide_sections rest
       (update_at link (setAttribute ''aria-expanded'' ''false'')
          (update_at link (classList_add ''collapsed'') d)))"
  by (simp add: Let_def case_prod_beta)

lemma hide_sections_in_document:
  "in_document (snd (hide_sections secs d)) p = in_document d p"
proof (induction secs arbitrary: d)
  case Nil
  show ?case by simp
next
  case (Cons a secs)
  obtain link c where a: "a = (link, c)" by (cases a)
  show ?case
    unfolding a hide_sections_snd_Cons Cons.IH by simp
qed

lemma hide_sections_keeps:
  "marked_collapsed d p \<Longrightarrow> marked_collapsed (snd (hide_sections secs d)) p"
proof (induction secs arbitrary: d)
  case Nil
  then show ?case by simp
next
  case (Cons a secs)
  obtain link c where a: "a = (link, c)" by (cases a)
  have "marked_collapsed
     (update_at link (setAttribute ''aria-expanded'' ''false'') (update_at link (classList_add ''collapsed'') d)) p"
    using Cons.prems marked_collapsed_in_document [of d p] by (auto simp: marked_collapsed_step)
  from Cons.IH [OF this] show ?case
    unfolding a hide_sections_snd_Cons .
qed

lemma hide_sections_marks:
  "p \<in> fst ` set secs \<Longrightarrow> in_document d p \<Longrightarrow> marked_collapsed (snd (hide_sections secs d)) p"
proof (induction secs arbitrary: d)
  case Nil
  then show ?case by simp
next
  case (Cons a secs)
  obtain link c where a: "a = (link, c)" by (cases a)
  let ?d = "update_at link (setAttribute ''aria-expanded'' ''false'') (update_at link (classList_add ''collapsed'') d)"
  show ?case
  proof (cases "p = link")
    case True
    then have "marked_collapsed ?d p"
      using Cons.prems(2) by (simp add: marked_collapsed_step)
    then have "marked_collapsed (snd (hide_sections secs ?d)) p"
      by (rule hide_sections_keeps)
    then show ?thesis
      unfolding a hide_sections_snd_Cons .
  next
    case False
    with Cons.prems(1) a have "p \<in> fst ` set secs" by auto
    moreover have "in_document ?d p" using Cons.prems(2) by simp
    ultimately have "marked_collapsed (snd (hide_sections secs ?d)) p"
      by (rule Cons.IH)
    then show ?thesis
      unfolding a hide_sections_snd_Cons .
  qed
qed

section \<open>Hiding the navigation\<close>

lemma last_call_collapse_hide [simp]: "last_call (collapse_hide c) = Some CollapseHide"
  by (simp add: last_call_def collapse_hide_def)

lemma last_call_collapse_show [simp]: "last_call (collapse_show c) = Some CollapseShow"
  by (simp add: last_call_def collapse_show_def)

lemma hide_document: "document (hide s) = snd (hide_sections (sections s) (document s))"
  by (simp add: hide_def Let_def case_prod_beta del: bodyAdd.simps bodyRemove.simps)

lemma hide_decompose:
  "hide s = bodyAdd [Hidden] (bodyRemove [Hide]
     ((bodyRemove [Pinned, Show] (bodyAdd [Hide] s))
        \<lparr>document := document (hide s), sections := sections (hide s)\<rparr>))"
  by (simp add: hide_def Let_def case_prod_beta)

text \<open>
  Claim C1. \<^verbatim>\<open>hide()\<close> first sets the body flag \<^verbatim>\<open>hide\<close> and clears \<^verbatim>\<open>pinned\<close> and
  \<^verbatim>\<open>show\<close>, then marks every registered section link collapsed (class \<^verbatim>\<open>collapsed\<close>,
  \<^verbatim>\<open>aria-expanded\<close> false) and calls \<^verbatim>\<open>hide()\<close> on its collapse controller, and last
  clears \<^verbatim>\<open>hide\<close> and sets \<^verbatim>\<open>hidden\<close>. When it returns, \<^verbatim>\<open>hidden\<close> is the only flag set
  among \<^verbatim>\<open>show\<close>, \<^verbatim>\<open>hide\<close> and \<^verbatim>\<open>hidden\<close>, and \<^verbatim>\<open>pinned\<close> is cleared. The state \<open>mid\<close>
  is the instance after the loop, before the last two statements. The section links
  are elements of the document.
\<close>

theorem hide_ends_hidden:
  assumes "links_in_document s"
  shows "(\<exists>mid. bodyHas Hide mid \<and> \<not> bodyHas Pinned mid \<and> \<not> bodyHas Show mid \<and>
            document mid = document (hide s) \<and> sections mid = sections (hide s) \<and>
            hide s = bodyAdd [Hidden] (bodyRemove [Hide] mid)) \<and>
         sections (hide s) = map (\<lambda>(link, c). (link, collapse_hide c)) (sections s) \<and>
         list_all (\<lambda>(link, c). marked_collapsed (document (hide s)) link \<and>
                             last_call c = Some CollapseHide) (sections (hide s)) \<and>
         bodyHas Hidden (hide s) \<and> \<not> bodyHas Show (hide s) \<and> \<not> bodyHas Hide (hide s) \<and>
         \<not> bodyHas Pinned (hide s)"
proof -
  let ?mid = "(bodyRemove [Pinned, Show] (bodyAdd [Hide] s))
        \<lparr>document := document (hide s), sections := sections (hide s)\<rparr>"
  have mid: "bodyHas Hide ?mid \<and> \<not> bodyHas Pinned ?mid \<and> \<not> bodyHas Show ?mid \<and>
            document ?mid = document (hide s) \<and> sections ?mid = sections (hide s) \<and>
            hide s = bodyAdd [Hidden] (bodyRemove [Hide] ?mid)"
    using hide_decompose [of s] by (simp del: bodyAdd.simps bodyRemove.simps)
  have marks: "marked_collapsed (document (hide s)) link"
    if "(link, c) \<in> set (sections s)" for link c
  proof -
    from that assms have "in_document (document s) link"
      by (auto simp: links_in_document_def list_all_iff)
    moreover from that have "link \<in> fst ` set (sections s)" by force
    ultimately show ?thesis
      unfolding hide_document by (rule hide_sections_marks [rotated])
  qed
  have all: "list_all (\<lambda>(link, c). marked_collapsed (document (hide s)) link \<and>
                             last_call c = Some CollapseHide) (sections (hide s))"
    unfolding hide_sections_eq using marks by (auto simp: list_all_iff)
  from mid all show ?thesis
    by (simp only: hide_sections_eq hide_flags) blast
qed

theorem hide_ends_hidden_witness:
  "links_in_document demo_state \<and>
   list_all (\<lambda>(link, c). marked_collapsed (document (hide demo_state)) link \<and>
                       last_call c = Some CollapseHide) (sections (hide demo_state)) \<and>
   map fst (sections (hide demo_state)) = [[0, 0, 0, 0], [0, 0, 1, 0]] \<and>
   bodyHas Hidden (hide demo_state) \<and> \<not> bodyHas Show (hide demo_state) \<and>
   \<not> bodyHas Hide (hide demo_state) \<and> \<not> bodyHas Pinned (hide demo_state)"
proof -
  have h: "links_in_document demo_state" by code_simp
  have k: "map fst (sections (hide demo_state)) = [[0, 0, 0, 0], [0, 0, 1, 0]]" by code_simp
  from h k hide_ends_hidden [OF h] show ?thesis by blast
qed

section \<open>Activation and the loop over the active links\<close>

lemma record_same: "s\<lparr>document := document s, sections := sections s\<rparr> = (s::sidenav)"
  by simp

lemma sections_get_Some:
  "sections_get secs k = Some c \<Longrightarrow> \<exists>g. k = Some g \<and> map_of secs g = Some c"
  by (cases k) (simp_all add: sections_get_def)

lemma activateLink_throw:
  "walk (document s) link = Inl e \<Longrightarrow> activateLink link act s = (Some e, s)"
  by (simp add: activateLink_def)

lemma activateLink_skip:
  assumes "walk (document s) link = Inr navItem"
    and "sections_get (sections s) (querySelector_child (document s) navItem (cls ''nav-link'')) = None"
  shows "activateLink link act s = (None, s)"
  using assms by (simp add: activateLink_def Let_def)

lemma activateLink_expand:
  assumes "walk (document s) link = Inr navItem"
    and "querySelector_child (document s) navItem (cls ''nav-link'') = Some g"
    and "map_of (sections s) g = Some c"
  shows "activateLink link Expand s =
     (None, s\<lparr>document :=
                 update_at g (classList_remove ''collapsed'')
                   (update_at link (classList_add ''active'')
                      (update_at g (setAttribute ''aria-expanded'' ''true'')
                         (update_at g (classList_add ''active'') (document s)))),
               sections := AList.map_entry g collapse_show (sections s)\<rparr>)"
  using assms by (simp add: activateLink_def Let_def isElement_def sections_get_def)

lemma activateLink_collapse:
  assumes "walk (document s) link = Inr navItem"
    and "querySelector_child (document s) navItem (cls ''nav-link'') = Some g"
    and "map_of (sections s) g = Some c"
  shows "activateLink link Collapse s =
     (None, s\<lparr>document :=
                 update_at g (classList_add ''collapsed'')
                   (update_at link (classList_remove ''active'')
                      (update_at g (setAttribute ''aria-expanded'' ''false'')
                         (update_at g (classList_add ''active'') (document s)))),
               sections := AList.map_entry g collapse_hide (sections s)\<rparr>)"
  using assms by (simp add: activateLink_def Let_def isElement_def sections_get_def)

lemma activateLink_changes:
  "\<exists>d secs. snd (activateLink link act s) = s\<lparr>document := d, sections := secs\<rparr>"
proof (cases "walk (document s) link")
  case (Inl e)
  then have "snd (activateLink link act s) = s" by (simp add: activateLink_throw)
  then show ?thesis using record_same [of s] by metis
next
  case (Inr navItem)
  show ?thesis
  proof (cases "sections_get (sections s) (querySelector_child (document s) navItem (cls ''nav-link''))")
    case None
    with Inr have "snd (activateLink link act s) = s" by (simp add: activateLink_skip)
    then show ?thesis using record_same [of s] by metis
  next
    case (Some c)
    then obtain g where g: "querySelector_child (document s) navItem (cls ''nav-link'') = Some g"
      "map_of (sections s) g = Some c"
      using sections_get_Some by blast
    show ?thesis
    proof (cases act)
      case Expand
      show ?thesis unfolding Expand activateLink_expand [OF Inr g] snd_conv by blast
    next
      case Collapse
      show ?thesis unfolding Collapse activateLink_collapse [OF Inr g] snd_conv by blast
    qed
  qed
qed

lemma activateLink_fields:
  "body (snd (activateLink link act s)) = body s"
  "state (snd (activateLink link act s)) = state s"
  "location_href (snd (activateLink link act s)) = location_href s"
  "base (snd (activateLink link act s)) = base s"
  "currentMobileState (snd (activateLink link act s)) = currentMobileState s"
  "activeLink (snd (activateLink link act s)) = activeLink s"
  using activateLink_changes [of link act s] by auto

lemma for_getActiveLinks_unfold_throw:
  "getActiveLinks_next re s g = Inl e \<Longrightarrow> for_getActiveLinks re block g s = (Some e, s)"
  by (subst for_getActiveLinks.simps) simp

lemma for_getActiveLinks_unfold_done:
  "getActiveLinks_next re s g = Inr None \<Longrightarrow> for_getActiveLinks re block g s = (None, s)"
  by (subst for_getActiveLinks.simps) simp

lemma for_getActiveLinks_unfold_block_throw:
  "getActiveLinks_next re s g = Inr (Some (link, g')) \<Longrightarrow> block link s = (Some e, s') \<Longrightarrow>
   for_getActiveLinks re block g s = (Some e, s')"
  by (subst for_getActiveLinks.simps) simp

lemma for_getActiveLinks_unfold_next:
  "getActiveLinks_next re s g = Inr (Some (link, g')) \<Longrightarrow> block link s = (None, s') \<Longrightarrow>
   for_getActiveLinks re block g s = for_getActiveLinks re block g' s'"
  by (subst for_getActiveLinks.simps) simp

lemma for_getActiveLinks_preserves:
  assumes "\<And>link t. f (snd (block link t)) = f t"
  shows "f (snd (for_getActiveLinks re block g s)) = f s"
  using assms
proof (induction re block g s rule: for_getActiveLinks.induct)
  case (1 re block g s)
  note keeps = "1.prems"
  show ?case
  proof (cases "getActiveLinks_next re s g")
    case (Inl e)
    show ?thesis unfolding for_getActiveLinks_unfold_throw [OF Inl] by simp
  next
    case (Inr r)
    show ?thesis
    proof (cases r)
      case None
      have "getActiveLinks_next re s g = Inr None" using Inr None by simp
      then show ?thesis unfolding for_getActiveLinks_unfold_done [OF \<open>getActiveLinks_next re s g = Inr None\<close>] by simp
    next
      case (Some lg)
      obtain link g' where lg: "lg = (link, g')" by (cases lg)
      obtain e s' where b: "block link s = (e, s')" by (cases "block link s")
      have nx: "getActiveLinks_next re s g = Inr (Some (link, g'))"
        using Inr Some lg by simp
      have "f (snd (block link s)) = f s" by (rule keeps)
      then have fs': "f s' = f s" unfolding b by simp
      show ?thesis
      proof (cases e)
        case None
        have b': "block link s = (None, s')" using b None by simp
        have "f (snd (for_getActiveLinks re block g' s')) = f s'"
          by (rule "1.IH" [OF Inr Some lg [symmetric] b' [symmetric] refl keeps])
        then show ?thesis
          unfolding for_getActiveLinks_unfold_next [of re s g link g' block s', OF nx b'] using fs' by simp
      next
        case (Some err)
        have b': "block link s = (Some err, s')" using b Some by simp
        show ?thesis
          unfolding for_getActiveLinks_unfold_block_throw [of re s g link g' block err s', OF nx b'] using fs' by simp
      qed
    qed
  qed
qed

section \<open>Showing, pinning and unpinning\<close>

lemma show_nav_fields:
  "body (snd (show_nav re s)) = body (bodyRemove [Hidden, Hide] (bodyAdd [Show] s))"
  "state (snd (show_nav re s)) = state s"
  "location_href (snd (show_nav re s)) = location_href s"
  "base (snd (show_nav re s)) = base s"
  "currentMobileState (snd (show_nav re s)) = currentMobileState s"
  "activeLink (snd (show_nav re s)) = activeLink s"
  unfolding show_nav_def Let_def
  by (simp_all add: for_getActiveLinks_preserves activateLink_fields
        del: bodyAdd.simps bodyRemove.simps)

lemma bodyHas_cong: "body s = body t \<Longrightarrow> bodyHas a s = bodyHas a t"
  by (simp add: bodyHas_def)

lemma show_nav_flags:
  "bodyHas a (snd (show_nav re s)) = (a = Show \<or> (a = Pinned \<and> bodyHas Pinned s))"
  using bodyHas_cong [OF show_nav_fields(1), of a re s]
  by (cases a) (auto simp del: bodyAdd.simps bodyRemove.simps)

lemma pin_flags:
  "bodyHas a (snd (pin re s)) = (a = Show \<or> a = Pinned)"
  by (cases a) (auto simp: pin_def Let_def show_nav_flags simp del: bodyAdd.simps bodyRemove.simps)

lemma pin_state: "state (snd (pin re s)) = state_set_pinned True (state s)"
  by (simp add: pin_def Let_def show_nav_fields del: bodyAdd.simps bodyRemove.simps)

lemma unpin_flags: "bodyHas a (unpin s) = (a = Hidden)"
  by (simp add: unpin_def hide_flags)

lemma unpin_state: "state (unpin s) = state_set_pinned False (state s)"
  by (simp add: unpin_def)

lemma run_calls_single: "run_calls re [c] s = snd (perform re c s)"
  by simp

text \<open>
  Claim C2. After any sequence of \<^verbatim>\<open>pin()\<close> and \<^verbatim>\<open>unpin()\<close> calls, from any state, the
  persisted preference \<^verbatim>\<open>pinned\<close> is true if the last call was \<^verbatim>\<open>pin()\<close> and false if it
  was \<^verbatim>\<open>unpin()\<close>. This holds also when a \<^verbatim>\<open>pin()\<close> of the sequence throws, since the
  store is written first.
\<close>

theorem pin_unpin_persists_last_call:
  assumes "ops \<noteq> []" and "list_all (\<lambda>c. c = CallPin \<or> c = CallUnpin) ops"
  shows "state_get_pinned (state (run_calls re ops s)) = (last ops = CallPin)"
  using assms
proof (induction ops arbitrary: s)
  case Nil
  then show ?case by simp
next
  case (Cons c cs)
  show ?case
  proof (cases "cs = []")
    case True
    from Cons.prems(2) have "c = CallPin \<or> c = CallUnpin" by simp
    then show ?thesis
      using True
      by (auto simp: pin_state unpin_state state_get_pinned_def state_set_pinned_def)
  next
    case False
    from Cons.prems(2) have "list_all (\<lambda>c. c = CallPin \<or> c = CallUnpin) cs" by simp
    from Cons.IH [OF False this] False show ?thesis by simp
  qed
qed

theorem pin_unpin_persists_last_call_witness:
  "[CallPin, CallUnpin, CallPin, CallUnpin] \<noteq> [] \<and>
   list_all (\<lambda>c. c = CallPin \<or> c = CallUnpin) [CallPin, CallUnpin, CallPin, CallUnpin] \<and>
   state_get_pinned (state (run_calls literal_engine [CallPin, CallUnpin, CallPin, CallUnpin] demo_state)) = False \<and>
   state_get_pinned (state (run_calls literal_engine [CallUnpin, CallPin] demo_state)) = True"
  using pin_unpin_persists_last_call [of "[CallPin, CallUnpin, CallPin, CallUnpin]" literal_engine demo_state]
    pin_unpin_persists_last_call [of "[CallUnpin, CallPin]" literal_engine demo_state]
  by simp

lemma perform_flags:
  "bodyHas a (snd (perform re c s)) =
     (case c of
        CallShow \<Rightarrow> a = Show \<or> (a = Pinned \<and> bodyHas Pinned s)
      | CallHide \<Rightarrow> a = Hidden
      | CallPin \<Rightarrow> a = Show \<or> a = Pinned
      | CallUnpin \<Rightarrow> a = Hidden)"
  by (cases c) (simp_all add: show_nav_flags hide_flags pin_flags unpin_flags)

text \<open>
  Claim C3. The four visibility operations preserve ``pinned implies shown'': after any
  sequence of \<^verbatim>\<open>show()\<close>, \<^verbatim>\<open>hide()\<close>, \<^verbatim>\<open>pin()\<close> and \<^verbatim>\<open>unpin()\<close> from a state in which
  the body flag \<^verbatim>\<open>pinned\<close> implies \<^verbatim>\<open>show\<close> set and \<^verbatim>\<open>hidden\<close> not set, it still does.
\<close>

theorem pinned_implies_shown_preserved:
  assumes "pinned_implies_shown s"
  shows "pinned_implies_shown (run_calls re ops s)"
  using assms
proof (induction ops arbitrary: s)
  case Nil
  then show ?case by simp
next
  case (Cons c cs)
  have "pinned_implies_shown (snd (perform re c s))"
    unfolding pinned_implies_shown_def perform_flags by (cases c) simp_all
  from Cons.IH [OF this] show ?case by simp
qed

theorem pinned_implies_shown_preserved_witness:
  "pinned_implies_shown (snd (pin literal_engine demo_state)) \<and>
   bodyHas Pinned (snd (pin literal_engine demo_state)) \<and>
   pinned_implies_shown
     (run_calls literal_engine [CallShow, CallHide, CallShow, CallPin, CallUnpin, CallPin]
        (snd (pin literal_engine demo_state)))"
proof -
  have h: "pinned_implies_shown (snd (pin literal_engine demo_state))"
    by (simp add: pinned_implies_shown_def pin_flags)
  have k: "bodyHas Pinned (snd (pin literal_engine demo_state))"
    by (simp add: pin_flags)
  from h k pinned_implies_shown_preserved [OF h, of literal_engine
      "[CallShow, CallHide, CallShow, CallPin, CallUnpin, CallPin]"]
  show ?thesis by blast
qed

lemma closeInactiveSections_fields:
  "body (closeInactiveSections s) = body s"
  "state (closeInactiveSections s) = state s"
  "location_href (closeInactiveSections s) = location_href s"
  "base (closeInactiveSections s) = base s"
  "currentMobileState (closeInactiveSections s) = currentMobileState s"
  "activeLink (closeInactiveSections s) = activeLink s"
  by (simp_all add: closeInactiveSections_def case_prod_beta)

lemma register_sections_state: "state (register_sections ls s) = state s"
  by (induction ls arbitrary: s) (auto split: option.splits)

lemma initActiveLinks_state: "state (snd (initActiveLinks re s)) = state s"
  unfolding initActiveLinks_def
  by (rule for_getActiveLinks_preserves) (simp add: activateLink_fields)

text \<open>
  Claim C10. \<^verbatim>\<open>show()\<close> and \<^verbatim>\<open>hide()\<close> leave the persisted \<^verbatim>\<open>NavState\<close> as it is; of the
  operations of the instance only \<^verbatim>\<open>pin()\<close> and \<^verbatim>\<open>unpin()\<close> write it (they store true
  and false). \<^verbatim>\<open>show()\<close> leaves the body flag \<^verbatim>\<open>pinned\<close> as it was and \<^verbatim>\<open>hide()\<close> clears
  it.
\<close>

theorem store_written_only_by_pin_and_unpin:
  "state (snd (show_nav re s)) = state s \<and>
   state (hide s) = state s \<and>
   bodyHas Pinned (snd (show_nav re s)) = bodyHas Pinned s \<and>
   \<not> bodyHas Pinned (hide s) \<and>
   state (snd (pin re s)) = state_set_pinned True (state s) \<and>
   state (unpin s) = state_set_pinned False (state s) \<and>
   state_get_pinned (state (snd (pin re s))) = True \<and>
   state_get_pinned (state (unpin s)) = False \<and>
   state (snd (activateLink link act s)) = state s \<and>
   state (closeInactiveSections s) = state s \<and>
   state (snd (handleSectionClick ev s)) = state s \<and>
   state (initSectionLinks s) = state s \<and>
   state (snd (initActiveLinks re s)) = state s \<and>
   state (snd (onEnter re s)) = state s \<and>
   state (onLeave s) = state s \<and>
   state (snd (snd (onMobileToggle re ev s))) = state s"
  by (simp add: show_nav_fields show_nav_flags hide_flags pin_state unpin_state
      activateLink_fields closeInactiveSections_fields handleSectionClick_def Let_def
      initSectionLinks_def register_sections_state initActiveLinks_state
      onEnter_def onLeave_def onMobileToggle_def state_get_pinned_def state_set_pinned_def)

section \<open>Clicks on section links\<close>

lemma close_sections_fst:
  "fst (close_sections active secs d) =
     map (\<lambda>(link, c). (link, if Some link \<noteq> active then collapse_hide c else c)) secs"
  by (induction secs arbitrary: d) (auto simp: Let_def case_prod_beta)

lemma close_sections_snd_Cons:
  "snd (close_sections active ((link, c) # rest) d) =
     (if Some link \<noteq> active
      then snd (close_sections active rest
             (update_at link (setAttribute ''aria-expanded'' ''false'')
                (update_at link (classList_add ''collapsed'') d)))
      else snd (close_sections active rest d))"
  by (simp add: Let_def case_prod_beta)

lemma close_sections_keeps:
  "marked_collapsed d p \<Longrightarrow> marked_collapsed (snd (close_sections active secs d)) p"
proof (induction secs arbitrary: d)
  case Nil
  then show ?case by simp
next
  case (Cons a secs)
  obtain link c where a: "a = (link, c)" by (cases a)
  have "marked_collapsed
     (update_at link (setAttribute ''aria-expanded'' ''false'') (update_at link (classList_add ''collapsed'') d)) p"
    using Cons.prems marked_collapsed_in_document [of d p] by (auto simp: marked_collapsed_step)
  with Cons.prems Cons.IH show ?case
    unfolding a close_sections_snd_Cons by simp
qed

lemma close_sections_marks:
  "p \<in> fst ` set secs \<Longrightarrow> Some p \<noteq> active \<Longrightarrow> in_document d p \<Longrightarrow>
   marked_collapsed (snd (close_sections active secs d)) p"
proof (induction secs arbitrary: d)
  case Nil
  then show ?case by simp
next
  case (Cons a secs)
  obtain link c where a: "a = (link, c)" by (cases a)
  let ?d = "update_at link (setAttribute ''aria-expanded'' ''false'') (update_at link (classList_add ''collapsed'') d)"
  show ?case
  proof (cases "p = link")
    case True
    then have "marked_collapsed ?d p"
      using Cons.prems(3) by (simp add: marked_collapsed_step)
    then have "marked_collapsed (snd (close_sections active secs ?d)) p"
      by (rule close_sections_keeps)
    then show ?thesis
      unfolding a close_sections_snd_Cons using True Cons.prems(2) by simp
  next
    case False
    with Cons.prems(1) a have mem: "p \<in> fst ` set secs" by auto
    have "in_document ?d p" using Cons.prems(3) by simp
    with mem Cons.prems(2) have 1: "marked_collapsed (snd (close_sections active secs ?d)) p"
      by (intro Cons.IH)
    from mem Cons.prems(2,3) have 2: "marked_collapsed (snd (close_sections active secs d)) p"
      by (intro Cons.IH)
    from 1 2 show ?thesis
      unfolding a close_sections_snd_Cons by simp
  qed
qed

lemma map_of_map_entries:
  "map_of (map (\<lambda>(link, c). (link, f link c)) secs) k = map_option (f k) (map_of secs k)"
  by (induction secs) auto

lemma handleSectionClick_result:
  "snd (handleSectionClick ev s) =
     s\<lparr>activeLink := Some (target ev),
       document := snd (close_sections (Some (target ev)) (sections s) (document s)),
       sections := map (\<lambda>(link, c). (link, if link \<noteq> target ev then collapse_hide c else c)) (sections s)\<rparr>"
  using close_sections_fst [of "Some (target ev)" "sections s" "document s"]
  by (simp add: handleSectionClick_def closeInactiveSections_def preventDefault_def Let_def case_prod_beta)

lemma handleSectionClick_collapses:
  assumes "p \<in> fst ` set (sections s)" and "p \<noteq> target ev" and "in_document (document s) p"
  shows "section_collapsed (snd (handleSectionClick ev s)) p"
proof -
  from assms(1) obtain c where c: "map_of (sections s) p = Some c"
    by (metis domIff dom_map_of_conv_image_fst not_Some_eq)
  have "marked_collapsed (snd (close_sections (Some (target ev)) (sections s) (document s))) p"
    using assms by (intro close_sections_marks) auto
  then show ?thesis
    using c assms(2)
    by (simp add: section_collapsed_def handleSectionClick_result map_of_map_entries)
qed


lemma close_sections_in_document:
  "in_document (snd (close_sections active secs d)) p = in_document d p"
proof (induction secs arbitrary: d)
  case Nil
  show ?case by simp
next
  case (Cons a secs)
  obtain link c where a: "a = (link, c)" by (cases a)
  show ?case
    unfolding a close_sections_snd_Cons using Cons.IH by simp
qed

lemma handleSectionClick_keys:
  "map fst (sections (snd (handleSectionClick ev s))) = map fst (sections s)"
  by (simp add: handleSectionClick_result case_prod_beta)

lemma handleSectionClick_in_document:
  "in_document (document (snd (handleSectionClick ev s))) p = in_document (document s) p"
  by (simp add: handleSectionClick_result close_sections_in_document)

lemma links_in_document_iff:
  "links_in_document s = (\<forall>p \<in> set (map fst (sections s)). in_document (document s) p)"
  by (auto simp: links_in_document_def list_all_iff)

lemma handleSectionClick_links_in_document:
  "links_in_document (snd (handleSectionClick ev s)) = links_in_document s"
  unfolding links_in_document_iff handleSectionClick_keys handleSectionClick_in_document ..

lemma click_collapses_others:
  assumes "links_in_document s"
  shows "list_all (\<lambda>(link, c). link = target ev \<or> section_collapsed (snd (handleSectionClick ev s)) link)
           (sections (snd (handleSectionClick ev s)))"
proof -
  have "section_collapsed (snd (handleSectionClick ev s)) p"
    if "p \<in> set (map fst (sections (snd (handleSectionClick ev s))))" and "p \<noteq> target ev" for p
  proof -
    from that(1) have mem: "p \<in> fst ` set (sections s)"
      unfolding handleSectionClick_keys by simp
    with assms have "in_document (document s) p"
      by (auto simp: links_in_document_iff)
    with mem that(2) show ?thesis by (intro handleSectionClick_collapses)
  qed
  then show ?thesis by (force simp: list_all_iff)
qed

text \<open>
  Claim C4. For two distinct registered section links A and B, after a click on A and
  then a click on B, the link A carries the class \<^verbatim>\<open>collapsed\<close>, its \<^verbatim>\<open>aria-expanded\<close> is
  \<^verbatim>\<open>false\<close>, the last call on its collapse controller is \<^verbatim>\<open>hide()\<close>, and \<^verbatim>\<open>activeLink\<close> is
  B. Each click collapses every registered section but the one of the link clicked, and
  prevents the default action of the event. The section links are elements of the
  document.
\<close>

theorem second_click_collapses_first:
  assumes "links_in_document s"
    and "A \<in> fst ` set (sections s)" and "B \<in> fst ` set (sections s)" and "A \<noteq> B"
    and "target evA = A" and "target evB = B"
  shows "section_collapsed (snd (handleSectionClick evB (snd (handleSectionClick evA s)))) A \<and>
         activeLink (snd (handleSectionClick evB (snd (handleSectionClick evA s)))) = Some B \<and>
         activeLink (snd (handleSectionClick evA s)) = Some A \<and>
         list_all (\<lambda>(link, c). link = A \<or> section_collapsed (snd (handleSectionClick evA s)) link)
           (sections (snd (handleSectionClick evA s))) \<and>
         list_all (\<lambda>(link, c). link = B \<or>
              section_collapsed (snd (handleSectionClick evB (snd (handleSectionClick evA s)))) link)
           (sections (snd (handleSectionClick evB (snd (handleSectionClick evA s))))) \<and>
         defaultPrevented (fst (handleSectionClick evA s))"
proof -
  let ?s1 = "snd (handleSectionClick evA s)"
  let ?s2 = "snd (handleSectionClick evB ?s1)"
  have l1: "links_in_document ?s1"
    using assms(1) by (simp add: handleSectionClick_links_in_document)
  have "A \<in> set (map fst (sections ?s1))"
    unfolding handleSectionClick_keys using assms(2) by simp
  then have memA: "A \<in> fst ` set (sections ?s1)" by simp
  with l1 have "in_document (document ?s1) A"
    by (auto simp: links_in_document_iff)
  with memA assms(4,6) have 1: "section_collapsed ?s2 A"
    by (intro handleSectionClick_collapses) auto
  have 2: "activeLink ?s2 = Some B" "activeLink ?s1 = Some A"
    using assms(5,6) by (simp_all add: handleSectionClick_result)
  have 3: "list_all (\<lambda>(link, c). link = A \<or> section_collapsed ?s1 link) (sections ?s1)"
    using click_collapses_others [OF assms(1), of evA] assms(5) by simp
  have 4: "list_all (\<lambda>(link, c). link = B \<or> section_collapsed ?s2 link) (sections ?s2)"
    using click_collapses_others [OF l1, of evB] assms(6) by simp
  have 5: "defaultPrevented (fst (handleSectionClick evA s))"
    by (simp add: handleSectionClick_def preventDefault_def Let_def)
  from 1 2 3 4 5 show ?thesis by blast
qed

theorem second_click_collapses_first_witness:
  "links_in_document demo_state \<and>
   [0, 0, 0, 0] \<in> fst ` set (sections demo_state) \<and>
   [0, 0, 1, 0] \<in> fst ` set (sections demo_state) \<and>
   section_collapsed
     (snd (handleSectionClick (click [0, 0, 1, 0]) (snd (handleSectionClick (click [0, 0, 0, 0]) demo_state))))
     [0, 0, 0, 0] \<and>
   activeLink
     (snd (handleSectionClick (click [0, 0, 1, 0]) (snd (handleSectionClick (click [0, 0, 0, 0]) demo_state))))
     = Some [0, 0, 1, 0]"
proof -
  have h: "links_in_document demo_state" by code_simp
  have a: "[0, 0, 0, 0] \<in> fst ` set (sections demo_state)"
    by (simp add: demo_state_def)
  have b: "[0, 0, 1, 0] \<in> fst ` set (sections demo_state)"
    by (simp add: demo_state_def)
  have n: "[0, 0, 0, 0] \<noteq> [0, 0, 1, 0::nat]" by simp
  have ta: "target (click [0, 0, 0, 0]) = [0, 0, 0, 0]" by (simp add: click_def)
  have tb: "target (click [0, 0, 1, 0]) = [0, 0, 1, 0]" by (simp add: click_def)
  from h a b second_click_collapses_first [OF h a b n ta tb] show ?thesis by blast
qed

section \<open>Resizing\<close>

lemma resize_togglers_eq:
  "resize_togglers ts s =
     (if list_ex (\<lambda>toggler. link_offsetParent s toggler \<noteq> None) ts
      then Some (if currentMobileState s = None \<or> currentMobileState s = Some False
                 then (hide s)\<lparr>currentMobileState := Some True\<rparr> else s)
      else None)"
  by (induction ts) auto

lemma onResize_desktop:
  assumes "\<not> some_toggler_rendered s" and "currentMobileState s \<noteq> Some False"
  shows "onResize re s =
           (if state_get_pinned (state s) then
              (case pin re s of
                 (Some e, s') \<Rightarrow> (Some e, s')
               | (None, s') \<Rightarrow> (None, s'\<lparr>currentMobileState := Some False\<rparr>))
            else (None, (unpin s)\<lparr>currentMobileState := Some False\<rparr>))"
  using assms
  by (cases "currentMobileState s")
     (auto simp: onResize_def some_toggler_rendered_def resize_togglers_eq)

lemma onResize_desktop_flags:
  assumes "\<not> some_toggler_rendered s" and "currentMobileState s \<noteq> Some False"
  shows "bodyHas a (snd (onResize re s)) =
           (if state_get_pinned (state s) then a = Show \<or> a = Pinned else a = Hidden)"
proof (cases "state_get_pinned (state s)")
  case True
  obtain e s' where p: "pin re s = (e, s')" by (cases "pin re s")
  have "bodyHas a s' = (a = Show \<or> a = Pinned)"
    using pin_flags [of a re s] p by simp
  then show ?thesis
    using True p by (cases e) (simp_all add: onResize_desktop [OF assms])
next
  case False
  then show ?thesis
    by (simp add: onResize_desktop [OF assms] unpin_flags)
qed

text \<open>
  Claim C7, at an input where it fails. No mobile toggler is rendered,
  \<^verbatim>\<open>currentMobileState\<close> is null and the stored preference is true, so \<^verbatim>\<open>onResize()\<close>
  calls \<^verbatim>\<open>pin()\<close>. One navigation link has the href \<^verbatim>\<open>http://localhost/a(\<close>, so
  \<^verbatim>\<open>new RegExp\<close> in \<^verbatim>\<open>getActiveLinks\<close> throws a \<^verbatim>\<open>SyntaxError\<close>, which leaves \<^verbatim>\<open>show()\<close>,
  \<^verbatim>\<open>pin()\<close> and \<^verbatim>\<open>onResize()\<close> before \<^verbatim>\<open>currentMobileState\<close> is assigned: it stays null
  and does not become false. Where \<^verbatim>\<open>pin()\<close> returns, \<open>onResize_desktop\<close> above gives what
  the claim says.
\<close>

theorem onResize_throw_keeps_mobile_state:
  "\<not> some_toggler_rendered broken_state \<and>
   currentMobileState broken_state = None \<and>
   state_get_pinned (state broken_state) \<and>
   fst (onResize literal_engine broken_state) = Some SyntaxError \<and>
   currentMobileState (snd (onResize literal_engine broken_state)) = None"
  by code_simp

section \<open>Activating a link\<close>

lemma subtree_append:
  "subtree (p @ q) d = (case subtree p d of None \<Rightarrow> None | Some t \<Rightarrow> subtree q t)"
proof (induction p arbitrary: d)
  case Nil
  show ?case by simp
next
  case (Cons i p)
  show ?case by (cases d) (simp add: Cons.IH)
qed

lemma children_in_document:
  assumes "g \<in> set (children d scope)"
  shows "in_document d g"
proof (cases "subtree scope d")
  case None
  with assms show ?thesis by (simp add: children_def)
next
  case (Some t)
  obtain e cs where t: "t = Elem e cs" by (cases t)
  from assms Some t obtain i where "i < length cs" "g = scope @ [i]"
    by (auto simp: children_def)
  then have "subtree g d = Some (cs ! i)"
    using Some t by (simp add: subtree_append)
  then show ?thesis
    by (cases "cs ! i") (simp add: in_document_def element_at_def)
qed

lemma querySelector_child_in_document:
  "querySelector_child d scope c = Some g \<Longrightarrow> in_document d g"
  unfolding querySelector_child_def
  by (rule children_in_document) (rule find_in_set)

text \<open>
  When the walk of \<^verbatim>\<open>activateLink(link, action)\<close> over the ancestors ends at the
  outermost nav item and that item has no nav-link child, or the child has no
  registered collapsible section, the call returns without an exception and leaves the
  instance as it was: no class, attribute or collapse controller is touched.
\<close>

lemma activateLink_without_section_is_noop:
  assumes "walk (document s) link = Inr navItem"
    and "querySelector_child (document s) navItem (cls ''nav-link'') = None \<or>
         (\<exists>g. querySelector_child (document s) navItem (cls ''nav-link'') = Some g \<and>
              map_of (sections s) g = None)"
  shows "activateLink link act s = (None, s)"
proof -
  from assms(2)
  have "sections_get (sections s) (querySelector_child (document s) navItem (cls ''nav-link'')) = None"
    by (auto simp: sections_get_def)
  with assms(1) show ?thesis by (rule activateLink_skip)
qed

lemma activateLink_without_section_is_noop_example:
  "walk (document demo_state) [1] = Inr [1] \<and>
   querySelector_child (document demo_state) [1] (cls ''nav-link'') = None \<and>
   activateLink [1] Expand demo_state = (None, demo_state) \<and>
   walk (document (demo_state\<lparr>sections := []\<rparr>)) [0, 0, 0, 1, 0, 0, 0] = Inr [0, 0, 0] \<and>
   querySelector_child (document (demo_state\<lparr>sections := []\<rparr>)) [0, 0, 0] (cls ''nav-link'')
     = Some [0, 0, 0, 0] \<and>
   map_of (sections (demo_state\<lparr>sections := []\<rparr>)) [0, 0, 0, 0] = None \<and>
   activateLink [0, 0, 0, 1, 0, 0, 0] Collapse (demo_state\<lparr>sections := []\<rparr>)
     = (None, demo_state\<lparr>sections := []\<rparr>)"
proof -
  have w1: "walk (document demo_state) [1] = Inr [1]" by code_simp
  have q1: "querySelector_child (document demo_state) [1] (cls ''nav-link'') = None" by code_simp
  have w2: "walk (document (demo_state\<lparr>sections := []\<rparr>)) [0, 0, 0, 1, 0, 0, 0] = Inr [0, 0, 0]"
    by code_simp
  have q2: "querySelector_child (document (demo_state\<lparr>sections := []\<rparr>)) [0, 0, 0] (cls ''nav-link'')
     = Some [0, 0, 0, 0]" by code_simp
  have m2: "map_of (sections (demo_state\<lparr>sections := []\<rparr>)) [0, 0, 0, 0] = None" by simp
  from w1 q1 w2 q2 m2
    activateLink_without_section_is_noop [OF w1, of Expand] 
    activateLink_without_section_is_noop [OF w2, of Collapse]
  show ?thesis by simp
qed

text \<open>
  Claim C8, at an input where it fails. The root element of the page is a nav item and
  no section is registered, so no group link has a registered section; the root
  element has no nav-link child either. The walk climbs from the link to the root
  element and then calls \<^verbatim>\<open>closest\<close> on its \<^verbatim>\<open>parentElement\<close>, which is null:
  \<^verbatim>\<open>activateLink\<close> ends with a \<^verbatim>\<open>TypeError\<close> and not as a silent no-op, for both actions,
  and so does \<^verbatim>\<open>show()\<close>, whose loop calls it. Nothing is mutated. Where the walk
  returns, \<open>activateLink_without_section_is_noop\<close> above gives what the claim says.
\<close>

theorem activateLink_throws_at_root_nav_item:
  "getActiveLinks root_nav_item_state = [[0, 0, 0, 1, 0, 0, 0], [0, 0, 1, 1, 0, 0, 0]] \<and>
   sections root_nav_item_state = [] \<and>
   querySelector_child (document root_nav_item_state) [] (cls ''nav-link'') = None \<and>
   walk (document root_nav_item_state) [0, 0, 0, 1, 0, 0, 0] = Inl TypeError \<and>
   activateLink [0, 0, 0, 1, 0, 0, 0] Expand root_nav_item_state = (Some TypeError, root_nav_item_state) \<and>
   activateLink [0, 0, 0, 1, 0, 0, 0] Collapse root_nav_item_state = (Some TypeError, root_nav_item_state) \<and>
   fst (show_nav literal_engine root_nav_item_state) = Some TypeError"
  by code_simp

lemma has_class_update_at:
  "has_class (update_at q f d) p c =
     (if p = q then (case element_at p d of None \<Rightarrow> False | Some e \<Rightarrow> classList_contains c (f e))
      else has_class d p c)"
  by (simp add: has_class_def element_at_update_at split: option.splits)

lemma attribute_of_update_at:
  "attribute_of (update_at q f d) p n =
     (if p = q then (case element_at p d of None \<Rightarrow> None | Some e \<Rightarrow> getAttribute n (f e))
      else attribute_of d p n)"
  by (simp add: attribute_of_def element_at_update_at split: option.splits)

lemma map_of_map_entry:
  "map_of (AList.map_entry k f xs) k' = (if k' = k then map_option f (map_of xs k) else map_of xs k')"
  by (induction xs) auto

text \<open>
  Claim C9, as the code has it. When \<^verbatim>\<open>activateLink(link, action)\<close> finds a registered
  section for the group link, the class \<^verbatim>\<open>active\<close> is added to the group link first, for
  both actions. With \<^verbatim>\<open>expand\<close> the group link ends with \<^verbatim>\<open>active\<close>. With \<^verbatim>\<open>collapse\<close>,
  which then sets \<^verbatim>\<open>aria-expanded\<close> to \<^verbatim>\<open>false\<close>, calls \<^verbatim>\<open>hide()\<close> on the controller,
  removes \<^verbatim>\<open>active\<close> from the link and adds \<^verbatim>\<open>collapsed\<close> to the group link, the group link
  ends with \<^verbatim>\<open>active\<close> exactly when the link is not the group link itself.
\<close>

theorem activateLink_group_link_active:
  assumes "walk (document s) link = Inr navItem"
    and "querySelector_child (document s) navItem (cls ''nav-link'') = Some g"
    and "map_of (sections s) g = Some c"
  shows "activateLink link Expand s =
           (None, s\<lparr>document :=
                 update_at g (classList_remove ''collapsed'')
                   (update_at link (classList_add ''active'')
                      (update_at g (setAttribute ''aria-expanded'' ''true'')
                         (update_at g (classList_add ''active'') (document s)))),
               sections := AList.map_entry g collapse_show (sections s)\<rparr>) \<and>
         activateLink link Collapse s =
           (None, s\<lparr>document :=
                 update_at g (classList_add ''collapsed'')
                   (update_at link (classList_remove ''active'')
                      (update_at g (setAttribute ''aria-expanded'' ''false'')
                         (update_at g (classList_add ''active'') (document s)))),
               sections := AList.map_entry g collapse_hide (sections s)\<rparr>) \<and>
         has_class (document (snd (activateLink link Expand s))) g ''active'' \<and>
         has_class (document (snd (activateLink link Collapse s))) g ''active'' = (link \<noteq> g) \<and>
         \<not> has_class (document (snd (activateLink link Collapse s))) link ''active'' \<and>
         attribute_of (document (snd (activateLink link Collapse s))) g ''aria-expanded'' = Some ''false'' \<and>
         has_class (document (snd (activateLink link Collapse s))) g ''collapsed'' \<and>
         map_of (sections (snd (activateLink link Collapse s))) g = Some (collapse_hide c)"
proof -
  from assms(2) have "in_document (document s) g"
    by (rule querySelector_child_in_document)
  then obtain e where e: "element_at g (document s) = Some e"
    by (auto simp: in_document_def)
  note ex = activateLink_expand [OF assms]
  note co = activateLink_collapse [OF assms]
  have 1: "has_class (document (snd (activateLink link Expand s))) g ''active''"
    unfolding ex using e
    by (auto simp: has_class_update_at element_at_update_at)
  have 2: "has_class (document (snd (activateLink link Collapse s))) g ''active'' = (link \<noteq> g)"
    unfolding co using e
    by (auto simp: has_class_update_at element_at_update_at)
  have 3: "\<not> has_class (document (snd (activateLink link Collapse s))) link ''active''"
    unfolding co using e
    by (auto simp: has_class_update_at element_at_update_at split: option.splits)
  have 4: "attribute_of (document (snd (activateLink link Collapse s))) g ''aria-expanded'' = Some ''false''"
    unfolding co using e
    by (auto simp: attribute_of_update_at element_at_update_at)
  have 5: "has_class (document (snd (activateLink link Collapse s))) g ''collapsed''"
    unfolding co using e
    by (auto simp: has_class_update_at element_at_update_at)
  have 6: "map_of (sections (snd (activateLink link Collapse s))) g = Some (collapse_hide c)"
    unfolding co using assms(3) by (simp add: map_of_map_entry)
  from ex co 1 2 3 4 5 6 show ?thesis by blast
qed

theorem activateLink_group_link_active_witness:
  "walk (document demo_state) [0, 0, 0, 1, 0, 0, 0] = Inr [0, 0, 0] \<and>
   querySelector_child (document demo_state) [0, 0, 0] (cls ''nav-link'') = Some [0, 0, 0, 0] \<and>
   map_of (sections demo_state) [0, 0, 0, 0] = Some (Collapse_new [0, 0, 0, 1]) \<and>
   has_class (document (snd (activateLink [0, 0, 0, 1, 0, 0, 0] Expand demo_state))) [0, 0, 0, 0] ''active'' \<and>
   has_class (document (snd (activateLink [0, 0, 0, 1, 0, 0, 0] Collapse demo_state))) [0, 0, 0, 0] ''active''"
proof -
  have w: "walk (document demo_state) [0, 0, 0, 1, 0, 0, 0] = Inr [0, 0, 0]" by code_simp
  have q: "querySelector_child (document demo_state) [0, 0, 0] (cls ''nav-link'') = Some [0, 0, 0, 0]"
    by code_simp
  have m: "map_of (sections demo_state) [0, 0, 0, 0] = Some (Collapse_new [0, 0, 0, 1])"
    by (simp add: demo_state_def)
  from w q m activateLink_group_link_active [OF w q m] show ?thesis by blast
qed

text \<open>
  The claim C9 as stated fails where the link is its own group link: in the sample
  page the section link \<open>[0, 0, 0, 0]\<close> is the first nav-link child of its outermost nav
  item, and \<^verbatim>\<open>collapse\<close> removes the class \<^verbatim>\<open>active\<close> it has just added.
\<close>

theorem activateLink_collapse_own_group_link:
  "walk (document demo_state) [0, 0, 0, 0] = Inr [0, 0, 0] \<and>
   querySelector_child (document demo_state) [0, 0, 0] (cls ''nav-link'') = Some [0, 0, 0, 0] \<and>
   map_of (sections demo_state) [0, 0, 0, 0] = Some (Collapse_new [0, 0, 0, 1]) \<and>
   fst (activateLink [0, 0, 0, 0] Collapse demo_state) = None \<and>
   \<not> has_class (document (snd (activateLink [0, 0, 0, 0] Collapse demo_state))) [0, 0, 0, 0] ''active''"
  by code_simp

section \<open>The sequence of active links\<close>

text \<open>
  What a consumer of \<^verbatim>\<open>getActiveLinks()\<close> receives: the links before the first href that
  is not a pattern, filtered by the match, and a \<^verbatim>\<open>SyntaxError\<close> if there is such an href.
  When every href is a pattern these are the matching navigation links under the
  container in document order, and the sequence depends on nothing but the document,
  the container and the location.
\<close>

lemma getActiveLinks_yields_Nil: "getActiveLinks_yields re s [] = ([], None)"
  by (subst getActiveLinks_yields.simps) simp

lemma getActiveLinks_yields_Cons:
  "getActiveLinks_yields re s (link # rest) =
     (case re (link_href s link) (location_href s) of
        None \<Rightarrow> ([], Some SyntaxError)
      | Some True \<Rightarrow> (link # fst (getActiveLinks_yields re s rest), snd (getActiveLinks_yields re s rest))
      | Some False \<Rightarrow> getActiveLinks_yields re s rest)"
proof (cases "re (link_href s link) (location_href s)")
  case None
  then show ?thesis by (subst getActiveLinks_yields.simps) simp
next
  case (Some m)
  show ?thesis
  proof (cases m)
    case True
    with Some show ?thesis
      by (subst getActiveLinks_yields.simps) (simp add: case_prod_beta)
  next
    case False
    with Some have "getActiveLinks_next re s (link # rest) = getActiveLinks_next re s rest"
      by simp
    then have "getActiveLinks_yields re s (link # rest) = getActiveLinks_yields re s rest"
      by (subst getActiveLinks_yields.simps, subst (2) getActiveLinks_yields.simps) simp
    with Some False show ?thesis by simp
  qed
qed

lemma getActiveLinks_yields_eq:
  "getActiveLinks_yields re s g =
     (filter (href_matches re s) (takeWhile (href_compiles re s) g),
      if list_all (href_compiles re s) g then None else Some SyntaxError)"
proof (induction g)
  case Nil
  show ?case by (simp add: getActiveLinks_yields_Nil)
next
  case (Cons link rest)
  note c = href_compiles_def [of re s link]
  note m = href_matches_def [of re s link]
  show ?case
  proof (cases "re (link_href s link) (location_href s)")
    case None
    then show ?thesis
      unfolding getActiveLinks_yields_Cons by (simp add: c)
  next
    case (Some b)
    then show ?thesis
      unfolding getActiveLinks_yields_Cons Cons.IH by (cases b) (simp_all add: c m)
  qed
qed

lemma getActiveLinks_yields_matching:
  assumes "list_all (href_compiles re s) (getActiveLinks s)"
  shows "getActiveLinks_yields re s (getActiveLinks s) =
           (filter (href_matches re s)
              (querySelectorAll (document s) (base s) nav_link_selector), None)"
proof -
  from assms have tw: "takeWhile (href_compiles re s) (getActiveLinks s) = getActiveLinks s"
    by (simp add: list_all_iff)
  show ?thesis
    unfolding getActiveLinks_yields_eq tw using assms by (simp add: getActiveLinks_def)
qed

lemma getActiveLinks_yields_frame:
  assumes "document t = document s" and "base t = base s" and "location_href t = location_href s"
  shows "getActiveLinks_yields re t (getActiveLinks t) = getActiveLinks_yields re s (getActiveLinks s)"
proof -
  have "href_compiles re t = href_compiles re s" "href_matches re t = href_matches re s"
    using assms by (auto simp: href_compiles_def href_matches_def link_href_def fun_eq_iff)
  moreover have "getActiveLinks t = getActiveLinks s"
    using assms by (simp add: getActiveLinks_def)
  ultimately show ?thesis by (simp add: getActiveLinks_yields_eq)
qed


section \<open>The ancestor walk returns\<close>

text \<open>
  The walk of \<^verbatim>\<open>activateLink\<close> throws only when it reaches the root element: from a link
  that is the root element, or in a document whose root element is a nav item.
\<close>

lemma find_holds: "find P xs = Some x \<Longrightarrow> P x"
  by (induction xs) (auto split: if_splits)

lemma walk_returns:
  assumes "link \<noteq> []" and "\<not> has_compound d (cls ''nav-item'') []"
  shows "\<exists>navItem. walk d link = Inr navItem"
  using assms
proof (induction d link rule: walk.induct)
  case (1 d navItem)
  from "1.prems"(1) have p: "parentElement navItem = Some (butlast navItem)"
    by (simp add: parentElement_def)
  show ?case
  proof (cases "closest d (cls ''nav-item'') (butlast navItem)")
    case None
    with p show ?thesis by (subst walk.simps) simp
  next
    case (Some nextItem)
    then have "has_compound d (cls ''nav-item'') nextItem"
      unfolding closest_def by (rule find_holds)
    with "1.prems"(2) have "nextItem \<noteq> []" by auto
    from "1.IH" [OF p Some this "1.prems"(2)] obtain r where "walk d nextItem = Inr r" by blast
    with p Some show ?thesis by (subst walk.simps) simp
  qed
qed

lemma walk_throws_at_root: "walk d [] = Inl TypeError"
  by (subst walk.simps) (simp add: parentElement_def)

section \<open>The elements a query returns\<close>

lemma paths_in_document_aux:
  "(\<forall>p \<in> set (paths d). in_document d p) \<and> True"
  "\<forall>p \<in> set (paths_from i cs).
      \<exists>j q. p = j # q \<and> i \<le> j \<and> j - i < length cs \<and> in_document (cs ! (j - i)) q"
proof (induction d and i cs rule: paths_paths_from.induct)
  case (1 e cs)
  show ?case
  proof (intro conjI ballI TrueI)
    fix p assume "p \<in> set (paths (Elem e cs))"
    then consider "p = []" | "p \<in> set (paths_from 0 cs)" by auto
    then show "in_document (Elem e cs) p"
    proof cases
      case 1
      then show ?thesis by (simp add: in_document_def)
    next
      case 2
      with "1.IH" obtain j q where "p = j # q" "j < length cs" "in_document (cs ! j) q"
        by fastforce
      then show ?thesis by (simp add: in_document_def)
    qed
  qed
next
  case (2 i)
  show ?case by simp
next
  case (3 i c cs)
  show ?case
  proof
    fix p assume "p \<in> set (paths_from i (c # cs))"
    then consider q where "p = i # q" "q \<in> set (paths c)" | "p \<in> set (paths_from (Suc i) cs)"
      by auto
    then show "\<exists>j q. p = j # q \<and> i \<le> j \<and> j - i < length (c # cs) \<and> in_document ((c # cs) ! (j - i)) q"
    proof cases
      case 1
      with "3.IH"(1) have "in_document c q" by simp
      with 1 show ?thesis by auto
    next
      case 2
      with "3.IH"(2) obtain j q where jq: "p = j # q" "Suc i \<le> j" "j - Suc i < length cs"
        "in_document (cs ! (j - Suc i)) q" by blast
      from jq(2) have "j - i = Suc (j - Suc i)" by arith
      then have "(c # cs) ! (j - i) = cs ! (j - Suc i)" by simp
      with jq show ?thesis by (intro exI [of _ j] exI [of _ q]) auto
    qed
  qed
qed

lemma paths_in_document: "p \<in> set (paths d) \<Longrightarrow> in_document d p"
  using paths_in_document_aux(1) [of d] by blast

lemma querySelectorAll_in_document:
  "p \<in> set (querySelectorAll d scope sel) \<Longrightarrow> in_document d p"
  by (simp add: querySelectorAll_def paths_in_document)

lemma getElements_in_document: "p \<in> set (getElements d sel) \<Longrightarrow> in_document d p"
  by (simp add: getElements_def document_querySelectorAll_def paths_in_document)

lemma paths_from_member:
  "j < length cs \<Longrightarrow> q \<in> set (paths (cs ! j)) \<Longrightarrow> (i + j) # q \<in> set (paths_from i cs)"
proof (induction cs arbitrary: i j)
  case Nil
  then show ?case by simp
next
  case (Cons c cs)
  show ?case
  proof (cases j)
    case 0
    with Cons.prems show ?thesis by simp
  next
    case (Suc k)
    with Cons.prems have "(Suc i + k) # q \<in> set (paths_from (Suc i) cs)"
      by (intro Cons.IH) auto
    with Suc show ?thesis by simp
  qed
qed

lemma in_document_paths: "in_document d p \<Longrightarrow> p \<in> set (paths d)"
proof (induction p arbitrary: d)
  case Nil
  then show ?case by (cases d) simp
next
  case (Cons i p)
  obtain e cs where d: "d = Elem e cs" by (cases d)
  from Cons.prems d have i: "i < length cs" and "in_document (cs ! i) p"
    by (auto simp: in_document_def split: if_splits)
  then have "p \<in> set (paths (cs ! i))" by (intro Cons.IH)
  with i have "(0 + i) # p \<in> set (paths_from 0 cs)" by (rule paths_from_member)
  with d show ?case by simp
qed

lemma set_paths: "set (paths d) = {p. in_document d p}"
  using paths_in_document in_document_paths by blast

lemma set_querySelectorAll:
  "set (querySelectorAll d scope sel) = {p. in_document d p \<and> is_descendant scope p \<and> matches d sel p}"
  by (auto simp: querySelectorAll_def set_paths)


lemma paths_from_heads:
  "p \<in> set (paths_from i cs) \<Longrightarrow> \<exists>j q. p = j # q \<and> i \<le> j"
proof (induction cs arbitrary: i)
  case Nil
  then show ?case by simp
next
  case (Cons c cs)
  from Cons.prems consider q where "p = i # q" | "p \<in> set (paths_from (Suc i) cs)"
    by auto
  then show ?case
  proof cases
    case 1
    then show ?thesis by simp
  next
    case 2
    from Cons.IH [OF this] show ?thesis by (metis Suc_leD)
  qed
qed

lemma paths_document_order_aux:
  "sorted_wrt precedes (paths d) \<and> True"
  "sorted_wrt precedes (paths_from i cs)"
proof (induction d and i cs rule: paths_paths_from.induct)
  case (1 e cs)
  have "precedes [] p" if "p \<in> set (paths_from 0 cs)" for p
    using paths_from_heads [OF that] by auto
  with "1.IH" show ?case by simp
next
  case (2 i)
  show ?case by simp
next
  case (3 i c cs)
  have a: "sorted_wrt precedes (map ((#) i) (paths c))"
    using "3.IH"(1) by (simp add: sorted_wrt_map)
  have b: "precedes x y"
    if "x \<in> set (map ((#) i) (paths c))" and "y \<in> set (paths_from (Suc i) cs)" for x y
  proof -
    from that(1) obtain q where "x = i # q" by auto
    moreover from paths_from_heads [OF that(2)] obtain j r where "y = j # r" "Suc i \<le> j" by blast
    ultimately show ?thesis by simp
  qed
  from a b "3.IH"(2) show ?case
    by (simp add: sorted_wrt_append del: set_map)
qed

lemma paths_document_order: "sorted_wrt precedes (paths d)"
  using paths_document_order_aux(1) [of d] by simp

lemma precedes_irrefl: "\<not> precedes p p"
  by (induction p) auto

lemma querySelectorAll_document_order:
  "sorted_wrt precedes (querySelectorAll d scope sel)"
  unfolding querySelectorAll_def
  by (rule sorted_wrt_filter) (rule paths_document_order)

lemma getActiveLinks_document_order: "sorted_wrt precedes (getActiveLinks s)"
  by (simp add: getActiveLinks_def querySelectorAll_document_order)

lemma getActiveLinks_yields_document_order:
  "sorted_wrt precedes (fst (getActiveLinks_yields re s (getActiveLinks s)))"
proof -
  have "sorted_wrt precedes (takeWhile (href_compiles re s) (getActiveLinks s))"
    using getActiveLinks_document_order [of s]
    by (metis sorted_wrt_append takeWhile_dropWhile_id)
  then show ?thesis
    by (simp add: getActiveLinks_yields_eq sorted_wrt_filter)
qed

section \<open>Registered links stay elements of the document\<close>

text \<open>
  The constructor registers elements of the document only, and no operation changes
  the keys of \<^verbatim>\<open>sections\<close> or the shape of the document: the hypothesis of the claims C1
  and C4 holds in every state the program reaches.
\<close>

lemma links_in_document_body [simp]:
  "links_in_document (bodyAdd as s) = links_in_document s"
  "links_in_document (bodyRemove as s) = links_in_document s"
  "links_in_document (s\<lparr>state := st\<rparr>) = links_in_document s"
  "links_in_document (s\<lparr>currentMobileState := m\<rparr>) = links_in_document s"
  "links_in_document (s\<lparr>activeLink := l\<rparr>) = links_in_document s"
  by (simp_all add: links_in_document_def del: bodyAdd.simps bodyRemove.simps)

lemma hide_keys: "map fst (sections (hide s)) = map fst (sections s)"
  by (simp add: hide_sections_eq case_prod_beta)

lemma hide_links_in_document: "links_in_document (hide s) = links_in_document s"
  unfolding links_in_document_iff hide_keys hide_document hide_sections_in_document ..

lemma map_entry_keys: "map fst (AList.map_entry k f xs) = map fst xs"
  by (induction xs) auto

lemma activateLink_links_in_document:
  "links_in_document (snd (activateLink link act s)) = links_in_document s"
proof (cases "walk (document s) link")
  case (Inl e)
  then show ?thesis by (simp add: activateLink_throw)
next
  case (Inr navItem)
  show ?thesis
  proof (cases "sections_get (sections s) (querySelector_child (document s) navItem (cls ''nav-link''))")
    case None
    with Inr show ?thesis by (simp add: activateLink_skip)
  next
    case (Some c)
    then obtain g where g: "querySelector_child (document s) navItem (cls ''nav-link'') = Some g"
      "map_of (sections s) g = Some c"
      using sections_get_Some by blast
    show ?thesis
    proof (cases act)
      case Expand
      show ?thesis
        unfolding Expand activateLink_expand [OF Inr g] links_in_document_iff
        by (simp add: map_entry_keys)
    next
      case Collapse
      show ?thesis
        unfolding Collapse activateLink_collapse [OF Inr g] links_in_document_iff
        by (simp add: map_entry_keys)
    qed
  qed
qed

lemma for_getActiveLinks_invariant:
  assumes "\<And>link t. P t \<Longrightarrow> P (snd (block link t))" and "P s"
  shows "P (snd (for_getActiveLinks re block g s))"
  using assms
proof (induction re block g s rule: for_getActiveLinks.induct)
  case (1 re block g s)
  note keeps = "1.prems"(1)
  show ?case
  proof (cases "getActiveLinks_next re s g")
    case (Inl e)
    show ?thesis unfolding for_getActiveLinks_unfold_throw [OF Inl] using "1.prems"(2) by simp
  next
    case (Inr r)
    show ?thesis
    proof (cases r)
      case None
      have n: "getActiveLinks_next re s g = Inr None" using Inr None by simp
      show ?thesis unfolding for_getActiveLinks_unfold_done [OF n] using "1.prems"(2) by simp
    next
      case (Some lg)
      obtain link g' where lg: "lg = (link, g')" by (cases lg)
      obtain e s' where b: "block link s = (e, s')" by (cases "block link s")
      have nx: "getActiveLinks_next re s g = Inr (Some (link, g'))"
        using Inr Some lg by simp
      have "P (snd (block link s))" using "1.prems"(2) by (rule keeps)
      then have ps': "P s'" unfolding b by simp
      show ?thesis
      proof (cases e)
        case None
        have b': "block link s = (None, s')" using b None by simp
        have "P (snd (for_getActiveLinks re block g' s'))"
          by (rule "1.IH" [OF Inr Some lg [symmetric] b' [symmetric] refl keeps ps'])
        then show ?thesis
          unfolding for_getActiveLinks_unfold_next [of re s g link g' block s', OF nx b'] .
      next
        case (Some err)
        have b': "block link s = (Some err, s')" using b Some by simp
        show ?thesis
          unfolding for_getActiveLinks_unfold_block_throw [of re s g link g' block err s', OF nx b']
          using ps' by simp
      qed
    qed
  qed
qed

lemma show_nav_links_in_document:
  "links_in_document s \<Longrightarrow> links_in_document (snd (show_nav re s))"
  unfolding show_nav_def Let_def
  by (rule for_getActiveLinks_invariant)
     (simp_all add: activateLink_links_in_document del: bodyAdd.simps bodyRemove.simps)

lemma pin_links_in_document: "links_in_document s \<Longrightarrow> links_in_document (snd (pin re s))"
  unfolding pin_def Let_def
  by (rule show_nav_links_in_document) (simp del: bodyAdd.simps)

lemma unpin_links_in_document: "links_in_document (unpin s) = links_in_document s"
  by (simp add: unpin_def hide_links_in_document)

lemma perform_links_in_document:
  "links_in_document s \<Longrightarrow> links_in_document (snd (perform re c s))"
  by (cases c)
     (simp_all add: show_nav_links_in_document hide_links_in_document pin_links_in_document
        unpin_links_in_document)

lemma onResize_links_in_document:
  assumes "links_in_document s"
  shows "links_in_document (snd (onResize re s))"
proof -
  have 1: "links_in_document (snd (pin re s))" using assms by (rule pin_links_in_document)
  obtain e s' where p: "pin re s = (e, s')" by (cases "pin re s")
  with 1 have "links_in_document s'" by simp
  with assms p show ?thesis
    by (cases e)
       (auto simp: onResize_def resize_togglers_eq hide_links_in_document unpin_links_in_document)
qed

lemma initActiveLinks_links_in_document:
  "links_in_document s \<Longrightarrow> links_in_document (snd (initActiveLinks re s))"
  unfolding initActiveLinks_def
  by (rule for_getActiveLinks_invariant) (simp_all add: activateLink_links_in_document)

lemma register_sections_document: "document (register_sections ls s) = document s"
  by (induction ls arbitrary: s) (auto split: option.splits)

lemma register_sections_links_in_document:
  assumes "links_in_document s" and "\<forall>l \<in> set ls. in_document (document s) l"
  shows "links_in_document (register_sections ls s)"
  using assms
proof (induction ls arbitrary: s)
  case Nil
  then show ?case by simp
next
  case (Cons l ls)
  let ?t = "\<lambda>el. s\<lparr>sections := AList.update l (Collapse_new el) (sections s)\<rparr>"
  have "links_in_document (?t el)" for el
    using Cons.prems by (auto simp: links_in_document_iff update_keys)
  moreover have "\<forall>k \<in> set ls. in_document (document (?t el)) k" for el
    using Cons.prems(2) by simp
  ultimately have "links_in_document (register_sections ls (?t el))" for el
    by (intro Cons.IH)
  moreover have "links_in_document (register_sections ls s)"
    using Cons.prems by (intro Cons.IH) auto
  ultimately show ?case by (simp split: option.splits)
qed

lemma initSectionLinks_links_in_document:
  "links_in_document s \<Longrightarrow> links_in_document (initSectionLinks s)"
  unfolding initSectionLinks_def
  by (rule register_sections_links_in_document) (auto dest: getElements_in_document)

lemma SideNav_new_links_in_document:
  "links_in_document (snd (SideNav_new re d b loc persisted container))"
proof -
  let ?s0 = "\<lparr>document = d, body = b, location_href = loc, base = container,
                state = (case persisted of None \<Rightarrow> \<lparr>pinned = True\<rparr> | Some st \<Rightarrow> st),
                currentMobileState = None, activeLink = None, sections = []\<rparr>"
  have 0: "links_in_document ?s0" by (simp add: links_in_document_def)
  then have 1: "links_in_document (snd (init re ?s0))"
    unfolding init_def by (rule onResize_links_in_document)
  obtain e s1 where i: "init re ?s0 = (e, s1)" by (cases "init re ?s0")
  with 1 have s1: "links_in_document s1" by simp
  then have "links_in_document (snd (initActiveLinks re (initSectionLinks s1)))"
    by (intro initActiveLinks_links_in_document initSectionLinks_links_in_document)
  with s1 i show ?thesis
    by (cases e) (simp_all add: SideNav_new_def Let_def)
qed

section \<open>Writes the selectors cannot see\<close>

lemma hasAttribute_classList [simp]:
  "hasAttribute n (classList_add c e) = hasAttribute n e"
  "hasAttribute n (classList_remove c e) = hasAttribute n e"
  by (simp_all add: hasAttribute_def classList_add_def classList_remove_def)

lemma element_fields_kept [simp]:
  "localName (classList_add c e) = localName e"
  "localName (classList_remove c e) = localName e"
  "localName (setAttribute n v e) = localName e"
  "href (classList_add c e) = href e"
  "href (classList_remove c e) = href e"
  "href (setAttribute n v e) = href e"
  "offsetParent (classList_add c e) = offsetParent e"
  "offsetParent (classList_remove c e) = offsetParent e"
  "offsetParent (setAttribute n v e) = offsetParent e"
  by (simp_all add: classList_add_def classList_remove_def setAttribute_def)

lemma unseen_writes:
  "unseen_write (classList_add ''active'')"
  "unseen_write (classList_remove ''active'')"
  "unseen_write (classList_add ''collapsed'')"
  "unseen_write (classList_remove ''collapsed'')"
  "unseen_write (setAttribute ''aria-expanded'' v)"
  by (simp_all add: unseen_write_def)

lemma unseen_writeD:
  assumes "unseen_write f"
  shows "localName (f e) = localName e"
    and "c \<noteq> ''active'' \<Longrightarrow> c \<noteq> ''collapsed'' \<Longrightarrow>
         classList_contains c (f e) = classList_contains c e"
    and "n \<noteq> ''aria-expanded'' \<Longrightarrow> hasAttribute n (f e) = hasAttribute n e"
  using assms unfolding unseen_write_def by blast+

lemma matches_compound_unseen:
  assumes "unseen_write f" and "plain_compound c"
  shows "matches_compound c (f e) = matches_compound c e"
proof -
  have "classList_contains k (f e) = classList_contains k e" if "k \<in> set (sel_classes c)" for k
  proof -
    from that assms(2) have "k \<noteq> ''active''" "k \<noteq> ''collapsed''"
      unfolding plain_compound_def by blast+
    then show ?thesis by (rule unseen_writeD(2) [OF assms(1)])
  qed
  then have 1: "list_all (\<lambda>k. classList_contains k (f e)) (sel_classes c) =
        list_all (\<lambda>k. classList_contains k e) (sel_classes c)"
    unfolding list_all_iff by blast
  have "hasAttribute a (f e) = hasAttribute a e" if "a \<in> set (sel_attrs c)" for a
  proof -
    from that assms(2) have "a \<noteq> ''aria-expanded''"
      unfolding plain_compound_def by blast
    then show ?thesis by (rule unseen_writeD(3) [OF assms(1)])
  qed
  then have 2: "list_all (\<lambda>a. hasAttribute a (f e)) (sel_attrs c) =
        list_all (\<lambda>a. hasAttribute a e) (sel_attrs c)"
    unfolding list_all_iff by blast
  show ?thesis
    unfolding matches_compound_def 1 2 unseen_writeD(1) [OF assms(1)] ..
qed

lemma has_compound_unseen:
  assumes "unseen_write f" and "plain_compound c"
  shows "has_compound (update_at q f d) c p = has_compound d c p"
proof (cases "element_at p d")
  case None
  then show ?thesis by (auto simp: has_compound_def element_at_update_at)
next
  case (Some e)
  then show ?thesis
    using matches_compound_unseen [OF assms, of e]
    by (auto simp: has_compound_def element_at_update_at)
qed

lemma match_ancestors_unseen:
  assumes "unseen_write f" and "list_all plain_compound cs"
  shows "match_ancestors (update_at q f d) cs qs = match_ancestors d cs qs"
  using assms(2)
  by (induction d cs qs rule: match_ancestors.induct)
     (simp_all add: has_compound_unseen [OF assms(1)])

lemma matches_unseen:
  assumes "unseen_write f" and "list_all plain_compound sel"
  shows "matches (update_at q f d) sel p = matches d sel p"
proof (cases "rev sel")
  case Nil
  then show ?thesis by (simp add: matches_def)
next
  case (Cons c cs)
  then have "set sel = set (c # cs)" by (metis set_rev)
  with assms(2) have "plain_compound c" "list_all plain_compound cs"
    by (auto simp: list_all_iff)
  with Cons assms(1) show ?thesis
    by (simp add: matches_def has_compound_unseen match_ancestors_unseen)
qed

lemma paths_from_cong: "map paths cs = map paths cs' \<Longrightarrow> paths_from i cs = paths_from i cs'"
proof (induction cs arbitrary: cs' i)
  case Nil
  then show ?case by simp
next
  case (Cons c cs)
  then obtain c' cs'' where "cs' = c' # cs''" by (cases cs') auto
  with Cons show ?case by auto
qed

lemma paths_update_at: "paths (update_at q f d) = paths d"
proof (induction q arbitrary: d)
  case Nil
  show ?case by (cases d) simp
next
  case (Cons i q)
  obtain e cs where d: "d = Elem e cs" by (cases d)
  show ?case
  proof (cases "i < length cs")
    case True
    have "map paths (cs[i := update_at q f (cs ! i)]) = map paths cs"
      using True by (simp add: map_update Cons.IH list_update_same_conv)
    then have "paths_from 0 (cs[i := update_at q f (cs ! i)]) = paths_from 0 cs"
      by (rule paths_from_cong)
    with True d show ?thesis by simp
  next
    case False
    with d show ?thesis by simp
  qed
qed

lemma querySelectorAll_unseen:
  assumes "unseen_write f" and "list_all plain_compound sel"
  shows "querySelectorAll (update_at q f d) scope sel = querySelectorAll d scope sel"
  by (simp add: querySelectorAll_def paths_update_at matches_unseen [OF assms])

lemma document_querySelectorAll_unseen:
  assumes "unseen_write f" and "list_all plain_compound sel"
  shows "document_querySelectorAll (update_at q f d) sel = document_querySelectorAll d sel"
proof -
  have "matches (update_at q f d) sel = matches d sel"
    by (rule ext) (rule matches_unseen [OF assms])
  then show ?thesis
    by (simp add: document_querySelectorAll_def paths_update_at)
qed

lemma same_view_refl: "same_view d d"
  by (simp add: same_view_def)

lemma same_view_trans: "same_view d d' \<Longrightarrow> same_view d' d'' \<Longrightarrow> same_view d d''"
  unfolding same_view_def by (metis (no_types, lifting))

lemma same_view_update_at:
  assumes "unseen_write f"
  shows "same_view d (update_at q f d)"
proof -
  have "matches (update_at q f d) sel = matches d sel" if "list_all plain_compound sel" for sel
    by (rule ext) (rule matches_unseen [OF assms that])
  moreover have "map_option href (element_at p (update_at q f d)) = map_option href (element_at p d)" for p
    using assms by (cases "element_at p d") (auto simp: element_at_update_at unseen_write_def)
  moreover have "map_option offsetParent (element_at p (update_at q f d))
      = map_option offsetParent (element_at p d)" for p
    using assms by (cases "element_at p d") (auto simp: element_at_update_at unseen_write_def)
  ultimately show ?thesis
    unfolding same_view_def by (simp add: paths_update_at)
qed

lemma same_view_step:
  "same_view d d' \<Longrightarrow> unseen_write f \<Longrightarrow> same_view d (update_at q f d')"
  using same_view_trans same_view_update_at by blast


lemma hide_sections_same_view:
  "same_view d0 d \<Longrightarrow> same_view d0 (snd (hide_sections secs d))"
proof (induction secs arbitrary: d)
  case Nil
  then show ?case by simp
next
  case (Cons a secs)
  obtain link c where a: "a = (link, c)" by (cases a)
  have "same_view d0 (update_at link (setAttribute ''aria-expanded'' ''false'')
          (update_at link (classList_add ''collapsed'') d))"
    by (intro same_view_step Cons.prems unseen_writes)
  then show ?case
    unfolding a hide_sections_snd_Cons by (rule Cons.IH)
qed

lemma close_sections_same_view:
  "same_view d0 d \<Longrightarrow> same_view d0 (snd (close_sections active secs d))"
proof (induction secs arbitrary: d)
  case Nil
  then show ?case by simp
next
  case (Cons a secs)
  obtain link c where a: "a = (link, c)" by (cases a)
  have "same_view d0 (update_at link (setAttribute ''aria-expanded'' ''false'')
          (update_at link (classList_add ''collapsed'') d))"
    by (intro same_view_step Cons.prems unseen_writes)
  with Cons.prems show ?case
    unfolding a close_sections_snd_Cons by (simp add: Cons.IH)
qed

lemma same_links_refl: "same_links s s"
  by (simp add: same_links_def same_view_refl)

lemma same_links_body [simp]:
  "same_links s (bodyAdd as t) = same_links s t"
  "same_links s (bodyRemove as t) = same_links s t"
  "same_links s (t\<lparr>state := st\<rparr>) = same_links s t"
  "same_links s (t\<lparr>currentMobileState := m\<rparr>) = same_links s t"
  "same_links s (t\<lparr>activeLink := l\<rparr>) = same_links s t"
  "same_links s (t\<lparr>sections := secs\<rparr>) = same_links s t"
  by (simp_all add: same_links_def del: bodyAdd.simps bodyRemove.simps)

lemma hide_same_links: "same_links s t \<Longrightarrow> same_links s (hide t)"
  by (simp add: same_links_def hide_document hide_sections_same_view)

lemma activateLink_same_links:
  assumes "same_links s t"
  shows "same_links s (snd (activateLink link act t))"
proof (cases "walk (document t) link")
  case (Inl e)
  with assms show ?thesis by (simp add: activateLink_throw)
next
  case (Inr navItem)
  show ?thesis
  proof (cases "sections_get (sections t) (querySelector_child (document t) navItem (cls ''nav-link''))")
    case None
    with Inr assms show ?thesis by (simp add: activateLink_skip)
  next
    case (Some c)
    then obtain g where g: "querySelector_child (document t) navItem (cls ''nav-link'') = Some g"
      "map_of (sections t) g = Some c"
      using sections_get_Some by blast
    from assms have v: "same_view (document s) (document t)"
      and b: "base t = base s" "location_href t = location_href s"
      by (simp_all add: same_links_def)
    show ?thesis
    proof (cases act)
      case Expand
      have "same_view (document s)
          (update_at g (classList_remove ''collapsed'')
             (update_at link (classList_add ''active'')
                (update_at g (setAttribute ''aria-expanded'' ''true'')
                   (update_at g (classList_add ''active'') (document t)))))"
        by (intro same_view_step v unseen_writes)
      with b show ?thesis
        unfolding Expand activateLink_expand [OF Inr g] by (simp add: same_links_def)
    next
      case Collapse
      have "same_view (document s)
          (update_at g (classList_add ''collapsed'')
             (update_at link (classList_remove ''active'')
                (update_at g (setAttribute ''aria-expanded'' ''false'')
                   (update_at g (classList_add ''active'') (document t)))))"
        by (intro same_view_step v unseen_writes)
      with b show ?thesis
        unfolding Collapse activateLink_collapse [OF Inr g] by (simp add: same_links_def)
    qed
  qed
qed

lemma show_nav_same_links: "same_links s t \<Longrightarrow> same_links s (snd (show_nav re t))"
  unfolding show_nav_def Let_def
  by (rule for_getActiveLinks_invariant)
     (simp_all add: activateLink_same_links del: bodyAdd.simps bodyRemove.simps)

lemma pin_same_links: "same_links s t \<Longrightarrow> same_links s (snd (pin re t))"
  unfolding pin_def Let_def
  by (rule show_nav_same_links) (simp del: bodyAdd.simps)

lemma unpin_same_links: "same_links s t \<Longrightarrow> same_links s (unpin t)"
  unfolding unpin_def by (rule hide_same_links) simp

lemma handleSectionClick_same_links:
  "same_links s t \<Longrightarrow> same_links s (snd (handleSectionClick ev t))"
  by (simp add: handleSectionClick_result same_links_def close_sections_same_view)

lemma perform_same_links: "same_links s t \<Longrightarrow> same_links s (snd (perform re c t))"
  by (cases c)
     (simp_all add: show_nav_same_links hide_same_links pin_same_links unpin_same_links)

lemma run_calls_same_links: "same_links s t \<Longrightarrow> same_links s (run_calls re ops t)"
  by (induction ops arbitrary: t) (simp_all add: perform_same_links)

lemma plain_selectors:
  "list_all plain_compound nav_link_selector"
  "list_all plain_compound section_selector"
  "list_all plain_compound [cls ''sidenav-toggle-mobile'']"
  by (simp_all add: nav_link_selector_def section_selector_def plain_compound_def cls_def)

lemma same_links_reads:
  assumes "same_links s t"
  shows "getActiveLinks t = getActiveLinks s"
    and "link_href t = link_href s"
    and "link_offsetParent t = link_offsetParent s"
    and "getElements (document t) [cls ''sidenav-toggle-mobile'']
           = getElements (document s) [cls ''sidenav-toggle-mobile'']"
proof -
  from assms have v: "same_view (document s) (document t)"
    and b: "base t = base s" by (simp_all add: same_links_def)
  from v have p: "paths (document t) = paths (document s)"
    and m: "\<And>sel. list_all plain_compound sel \<Longrightarrow> matches (document t) sel = matches (document s) sel"
    and h: "\<And>p. map_option href (element_at p (document t)) = map_option href (element_at p (document s))"
    and o: "\<And>p. map_option offsetParent (element_at p (document t))
                  = map_option offsetParent (element_at p (document s))"
    unfolding same_view_def by blast+
  show "getActiveLinks t = getActiveLinks s"
    by (simp add: getActiveLinks_def querySelectorAll_def p b m [OF plain_selectors(1)])
  show "link_href t = link_href s"
  proof (rule ext)
    fix l show "link_href t l = link_href s l"
      using h [of l] by (auto simp: link_href_def split: option.splits)
  qed
  show "link_offsetParent t = link_offsetParent s"
  proof (rule ext)
    fix l show "link_offsetParent t l = link_offsetParent s l"
      using o [of l] by (auto simp: link_offsetParent_def split: option.splits)
  qed
  show "getElements (document t) [cls ''sidenav-toggle-mobile'']
           = getElements (document s) [cls ''sidenav-toggle-mobile'']"
    by (simp add: getElements_def document_querySelectorAll_def p m [OF plain_selectors(3)])
qed

lemma same_links_yields:
  assumes "same_links s t"
  shows "getActiveLinks_yields re t (getActiveLinks t) = getActiveLinks_yields re s (getActiveLinks s)"
proof -
  from assms have l: "location_href t = location_href s" by (simp add: same_links_def)
  have "href_compiles re t = href_compiles re s" "href_matches re t = href_matches re s"
    using same_links_reads(2) [OF assms] l
    by (auto simp: href_compiles_def href_matches_def fun_eq_iff)
  then show ?thesis
    by (simp add: getActiveLinks_yields_eq same_links_reads(1) [OF assms])
qed

lemma same_links_toggler:
  "same_links s t \<Longrightarrow> some_toggler_rendered t = some_toggler_rendered s"
  by (simp add: some_toggler_rendered_def same_links_reads)

lemma getActiveLinks_yields_stable:
  "getActiveLinks_yields re (run_calls re' ops s) (getActiveLinks (run_calls re' ops s))
     = getActiveLinks_yields re s (getActiveLinks s)"
  by (rule same_links_yields) (rule run_calls_same_links, rule same_links_refl)

section \<open>Resizing on a narrow window\<close>

lemma onResize_mobile_step:
  assumes "some_toggler_rendered s"
  shows "onResize re s =
           (if currentMobileState s = Some True then (None, s)
            else (None, (hide s)\<lparr>currentMobileState := Some True\<rparr>))"
  using assms
  by (cases "currentMobileState s")
     (auto simp: onResize_def some_toggler_rendered_def resize_togglers_eq)

lemma hide_marks_registered:
  assumes "links_in_document s"
  shows "list_all (\<lambda>(link, c). marked_collapsed (document (hide s)) link \<and>
                             last_call c = Some CollapseHide) (sections (hide s))"
proof -
  have "marked_collapsed (document (hide s)) link"
    if "(link, c) \<in> set (sections s)" for link c
  proof -
    from that assms have "in_document (document s) link"
      by (auto simp: links_in_document_def list_all_iff)
    moreover from that have "link \<in> fst ` set (sections s)" by force
    ultimately show ?thesis
      unfolding hide_document by (rule hide_sections_marks [rotated])
  qed
  then show ?thesis
    unfolding hide_sections_eq by (auto simp: list_all_iff)
qed

text \<open>
  Claim C6. When \<^verbatim>\<open>onResize()\<close> finds a mobile toggler rendered: if \<^verbatim>\<open>currentMobileState\<close>
  is null or false, the navigation is hidden by \<^verbatim>\<open>hide()\<close> and \<^verbatim>\<open>currentMobileState\<close>
  becomes true; if it is true already, the call changes nothing. So a second call
  right after the first one changes nothing. Hidden means: of the four body flags
  exactly \<^verbatim>\<open>hidden\<close> is set, every collapse controller has received one more call,
  \<^verbatim>\<open>hide()\<close>, and every registered link that is an element of the document is marked
  collapsed; the stored preference is kept.
\<close>

theorem onResize_mobile:
  assumes "some_toggler_rendered s"
  shows "onResize re s =
           (if currentMobileState s = Some True then (None, s)
            else (None, (hide s)\<lparr>currentMobileState := Some True\<rparr>)) \<and>
         currentMobileState (snd (onResize re s)) = Some True \<and>
         onResize re (snd (onResize re s)) = (None, snd (onResize re s)) \<and>
         (currentMobileState s \<noteq> Some True \<longrightarrow>
            bodyHas a (snd (onResize re s)) = (a = Hidden) \<and>
            sections (snd (onResize re s))
              = map (\<lambda>(link, c). (link, collapse_hide c)) (sections s) \<and>
            state (snd (onResize re s)) = state s \<and>
            (links_in_document s \<longrightarrow>
               list_all (\<lambda>(link, c). marked_collapsed (document (snd (onResize re s))) link \<and>
                                   last_call c = Some CollapseHide)
                 (sections (snd (onResize re s)))))"
proof -
  note 1 = onResize_mobile_step [OF assms, of re]
  then have 2: "currentMobileState (snd (onResize re s)) = Some True"
    by (simp split: if_splits)
  have "same_links s (snd (onResize re s))"
    unfolding 1 by (simp add: same_links_refl hide_same_links)
  then have "some_toggler_rendered (snd (onResize re s))"
    using assms by (simp add: same_links_toggler)
  from onResize_mobile_step [OF this, of re] 2
  have 3: "onResize re (snd (onResize re s)) = (None, snd (onResize re s))"
    by simp
  have 4: "bodyHas a (snd (onResize re s)) = (a = Hidden)"
    "sections (snd (onResize re s)) = map (\<lambda>(link, c). (link, collapse_hide c)) (sections s)"
    "state (snd (onResize re s)) = state s"
    if "currentMobileState s \<noteq> Some True"
    using that unfolding 1 by (simp_all add: hide_flags hide_sections_eq)
  have 5: "list_all (\<lambda>(link, c). marked_collapsed (document (snd (onResize re s))) link \<and>
                                   last_call c = Some CollapseHide)
                 (sections (snd (onResize re s)))"
    if "currentMobileState s \<noteq> Some True" and "links_in_document s"
    using that(1) hide_marks_registered [OF that(2)] unfolding 1 by simp
  from 1 2 3 4 5 show ?thesis by blast
qed

theorem onResize_mobile_witness:
  "some_toggler_rendered demo_mobile \<and>
   currentMobileState demo_mobile = None \<and>
   links_in_document demo_mobile \<and>
   onResize literal_engine demo_mobile = (None, (hide demo_mobile)\<lparr>currentMobileState := Some True\<rparr>) \<and>
   bodyHas Hidden (snd (onResize literal_engine demo_mobile)) \<and>
   \<not> bodyHas Show (snd (onResize literal_engine demo_mobile)) \<and>
   \<not> bodyHas Pinned (snd (onResize literal_engine demo_mobile)) \<and>
   list_all (\<lambda>(link, c). marked_collapsed (document (snd (onResize literal_engine demo_mobile))) link \<and>
                       last_call c = Some CollapseHide)
     (sections (snd (onResize literal_engine demo_mobile))) \<and>
   some_toggler_rendered ((hide demo_mobile)\<lparr>currentMobileState := Some True\<rparr>) \<and>
   onResize literal_engine ((hide demo_mobile)\<lparr>currentMobileState := Some True\<rparr>) =
     (None, (hide demo_mobile)\<lparr>currentMobileState := Some True\<rparr>)"
proof -
  have h1: "some_toggler_rendered demo_mobile" by code_simp
  have c1: "currentMobileState demo_mobile = None" by code_simp
  have l1: "links_in_document demo_mobile" by code_simp
  have h2: "some_toggler_rendered ((hide demo_mobile)\<lparr>currentMobileState := Some True\<rparr>)"
    by code_simp
  have n: "currentMobileState demo_mobile \<noteq> Some True" using c1 by simp
  note t = onResize_mobile [OF h1, of literal_engine]
  from n t [of Hidden]
  have "bodyHas Hidden (snd (onResize literal_engine demo_mobile)) = (Hidden = Hidden)" by blast
  then have a: "bodyHas Hidden (snd (onResize literal_engine demo_mobile))" by simp
  from n t [of Show]
  have "bodyHas Show (snd (onResize literal_engine demo_mobile)) = (Show = Hidden)" by blast
  then have b: "\<not> bodyHas Show (snd (onResize literal_engine demo_mobile))" by simp
  from n t [of Pinned]
  have "bodyHas Pinned (snd (onResize literal_engine demo_mobile)) = (Pinned = Hidden)" by blast
  then have c: "\<not> bodyHas Pinned (snd (onResize literal_engine demo_mobile))" by simp
  from n l1 t [of Hidden]
  have d: "list_all (\<lambda>(link, c). marked_collapsed (document (snd (onResize literal_engine demo_mobile))) link \<and>
                       last_call c = Some CollapseHide)
     (sections (snd (onResize literal_engine demo_mobile)))" by blast
  from t [of Hidden]
  have "onResize literal_engine demo_mobile =
      (if currentMobileState demo_mobile = Some True then (None, demo_mobile)
       else (None, (hide demo_mobile)\<lparr>currentMobileState := Some True\<rparr>))" by blast
  with n
  have e: "onResize literal_engine demo_mobile = (None, (hide demo_mobile)\<lparr>currentMobileState := Some True\<rparr>)"
    by (simp only: if_False)
  from onResize_mobile [OF h2, of literal_engine Hidden]
  have "onResize literal_engine ((hide demo_mobile)\<lparr>currentMobileState := Some True\<rparr>) =
      (if currentMobileState ((hide demo_mobile)\<lparr>currentMobileState := Some True\<rparr>) = Some True
       then (None, (hide demo_mobile)\<lparr>currentMobileState := Some True\<rparr>)
       else (None, (hide ((hide demo_mobile)\<lparr>currentMobileState := Some True\<rparr>))\<lparr>currentMobileState := Some True\<rparr>))"
    by blast
  then have f: "onResize literal_engine ((hide demo_mobile)\<lparr>currentMobileState := Some True\<rparr>) =
     (None, (hide demo_mobile)\<lparr>currentMobileState := Some True\<rparr>)" by simp
  from h1 c1 l1 e a b c d h2 f show ?thesis by blast
qed

section \<open>The sequence of active links, where an href is no pattern\<close>

text \<open>
  Claim C5, at an input where it fails. The first navigation link of the page has the
  href \<^verbatim>\<open>http://localhost/a(\<close> and the second one the href of the current location,
  \<^verbatim>\<open>http://localhost/b\<close>. The claim has the sequence consist of the second link. The
  generator throws a \<^verbatim>\<open>SyntaxError\<close> at the first link and yields nothing. Where every
  href is a pattern, \<open>getActiveLinks_yields_matching\<close> above gives what the claim says.
\<close>

theorem getActiveLinks_throws_before_match:
  "getActiveLinks (broken_state\<lparr>location_href := ''http://localhost/b''\<rparr>)
     = [[0, 0, 0, 1, 0, 0, 0], [0, 0, 1, 1, 0, 0, 0]] \<and>
   link_href (broken_state\<lparr>location_href := ''http://localhost/b''\<rparr>) [0, 0, 0, 1, 0, 0, 0]
     = ''http://localhost/a('' \<and>
   href_matches literal_engine (broken_state\<lparr>location_href := ''http://localhost/b''\<rparr>)
     [0, 0, 1, 1, 0, 0, 0] \<and>
   getActiveLinks_yields literal_engine (broken_state\<lparr>location_href := ''http://localhost/b''\<rparr>)
     (getActiveLinks (broken_state\<lparr>location_href := ''http://localhost/b''\<rparr>))
     = ([], Some SyntaxError)"
  by code_simp

end
